theory Spec2Isabelle
  imports Main "HOL-Library.Multiset" "HOL-Library.Signed_Division"
begin

section \<open>Data model\<close>

text \<open>
  The partition core of \<^verbatim>\<open>avx512-common-qsort.h\<close> works on a raw pointer
  \<^verbatim>\<open>type_t *arr\<close> with 64-bit signed indices and no bounds checks.  Memory is
  therefore a store from (signed) indices to elements; an access outside the range the
  caller passed is an access to another address of the same store.  Indices are
  mathematical integers: on a valid range they are bounded by the length of the buffer.

  A vector register is the list of its lanes (lane 0 first), a lane mask the list of its
  bits.  The element type is any linear order.
\<close>

type_synonym 'a mem = "int \<Rightarrow> 'a"
type_synonym 'a zmm = "'a list"
type_synonym opmask = "bool list"

section \<open>The vector operations consumed by the core\<close>

text \<open>
  The header \<^verbatim>\<open>avx512-zmm-classes.h\<close> that defines the \<^verbatim>\<open>vtype\<close> classes is
  not part of the sources at hand; the lane count \<^verbatim>\<open>vtype::numlanes\<close> is a parameter
  \<open>N\<close> of every function below.
\<close>

definition loadu :: "nat \<Rightarrow> 'a mem \<Rightarrow> int \<Rightarrow> 'a zmm" where
  \<comment> \<open>Modelled from the spec: \<^verbatim>\<open>vtype::loadu\<close> of the missing header, the unaligned load of
      \<open>numlanes\<close> consecutive elements.\<close>
  "loadu N arr p = map (\<lambda>i. arr (p + int i)) [0..<N]"

definition set1 :: "nat \<Rightarrow> 'a \<Rightarrow> 'a zmm" where
  \<comment> \<open>Modelled from the spec: \<^verbatim>\<open>vtype::set1\<close>, broadcast of a scalar to all lanes.\<close>
  "set1 N x = replicate N x"

definition vmin :: "'a::linorder zmm \<Rightarrow> 'a zmm \<Rightarrow> 'a zmm" where
  \<comment> \<open>Modelled from the spec: \<^verbatim>\<open>vtype::min\<close>, the elementwise minimum.\<close>
  "vmin a b = map2 min a b"

definition vmax :: "'a::linorder zmm \<Rightarrow> 'a zmm \<Rightarrow> 'a zmm" where
  \<comment> \<open>Modelled from the spec: \<^verbatim>\<open>vtype::max\<close>, the elementwise maximum.\<close>
  "vmax a b = map2 max a b"

definition ge :: "'a::linorder zmm \<Rightarrow> 'a zmm \<Rightarrow> opmask" where
  \<comment> \<open>Modelled from the spec: \<^verbatim>\<open>vtype::ge\<close>, elementwise greater-or-equal as a lane mask.\<close>
  "ge a b = map2 (\<lambda>x y. y \<le> x) a b"

definition knot_opmask :: "opmask \<Rightarrow> opmask" where
  \<comment> \<open>Modelled from the spec: \<^verbatim>\<open>vtype::knot_opmask\<close>, the bitwise complement of a mask.\<close>
  "knot_opmask m = map Not m"

text \<open>
  Modelled from the spec: the store of consecutive elements from an address on, which
  \<^verbatim>\<open>vtype::mask_compressstoreu\<close> of the missing header performs on the selected lanes.
\<close>

fun write_seq :: "'a mem \<Rightarrow> int \<Rightarrow> 'a list \<Rightarrow> 'a mem" where
  "write_seq arr p [] = arr"
| "write_seq arr p (x # xs) = write_seq (arr(p := x)) (p + 1) xs"

definition mask_compressstoreu :: "'a mem \<Rightarrow> int \<Rightarrow> opmask \<Rightarrow> 'a zmm \<Rightarrow> 'a mem" where
  \<comment> \<open>Modelled from the spec: \<^verbatim>\<open>vtype::mask_compressstoreu(ptr, mask, vec)\<close> writes only the
      lanes selected by the mask, packed contiguously in ascending lane order, to memory
      starting at \<open>ptr\<close>, touching exactly popcount(mask) elements and no others.\<close>
  "mask_compressstoreu arr p msk vec = write_seq arr p (map fst (filter snd (zip vec msk)))"

definition reducemin :: "'a::linorder zmm \<Rightarrow> 'a" where
  \<comment> \<open>Modelled from the spec: \<^verbatim>\<open>vtype::reducemin\<close>, the horizontal minimum of the lanes.\<close>
  "reducemin v = fold min (tl v) (hd v)"

definition reducemax :: "'a::linorder zmm \<Rightarrow> 'a" where
  \<comment> \<open>Modelled from the spec: \<^verbatim>\<open>vtype::reducemax\<close>, the horizontal maximum of the lanes.\<close>
  "reducemax v = fold max (tl v) (hd v)"

definition popcnt_u32 :: "opmask \<Rightarrow> int" where
  \<comment> \<open>\<^verbatim>\<open>_mm_popcnt_u32((int32_t)ge_mask)\<close>: the cast keeps the low 32 bits of the mask, the
      intrinsic counts the bits set among them.\<close>
  "popcnt_u32 m = int (length (filter id (take 32 m)))"

section \<open>Scalar helpers\<close>

definition comparison_func :: "'a::linorder \<Rightarrow> 'a \<Rightarrow> bool" where
  "comparison_func a b = (a < b)"

definition std_min :: "'a::linorder \<Rightarrow> 'a \<Rightarrow> 'a" where
  \<comment> \<open>\<^verbatim>\<open>std::min(a, b, comp)\<close> returns \<open>b\<close> when \<open>comp(b, a)\<close>, else \<open>a\<close>.\<close>
  "std_min a b = (if comparison_func b a then b else a)"

definition std_max :: "'a::linorder \<Rightarrow> 'a \<Rightarrow> 'a" where
  \<comment> \<open>\<^verbatim>\<open>std::max(a, b, comp)\<close> returns \<open>b\<close> when \<open>comp(a, b)\<close>, else \<open>a\<close>.\<close>
  "std_max a b = (if comparison_func a b then b else a)"

definition std_swap :: "'a mem \<Rightarrow> int \<Rightarrow> int \<Rightarrow> 'a mem" where
  \<comment> \<open>\<^verbatim>\<open>std::swap(arr[i], arr[j])\<close>\<close>
  "std_swap arr i j = arr(i := arr j, j := arr i)"

section \<open>Compare and exchange\<close>

definition COEX :: "'a::linorder zmm \<Rightarrow> 'a zmm \<Rightarrow> 'a zmm \<times> 'a zmm" where
  "COEX a b = (let temp = a; a' = vmin a b; b' = vmax temp b in (a', b'))"

section \<open>Partitioning one register\<close>

definition partition_vec ::
  "'a::linorder mem \<Rightarrow> int \<Rightarrow> int \<Rightarrow> 'a zmm \<Rightarrow> 'a zmm \<Rightarrow> 'a zmm \<Rightarrow> 'a zmm
     \<Rightarrow> 'a mem \<times> 'a zmm \<times> 'a zmm \<times> int" where
  "partition_vec arr left right curr_vec pivot_vec smallest_vec biggest_vec =
     (let ge_mask = ge curr_vec pivot_vec;
          amount_ge_pivot = popcnt_u32 ge_mask;
          arr1 = mask_compressstoreu arr left (knot_opmask ge_mask) curr_vec;
          arr2 = mask_compressstoreu arr1 (right - amount_ge_pivot) ge_mask curr_vec;
          smallest_vec' = vmin curr_vec smallest_vec;
          biggest_vec' = vmax curr_vec biggest_vec
      in (arr2, smallest_vec', biggest_vec', amount_ge_pivot))"

section \<open>The scalar remainder loop\<close>

text \<open>
  \<^verbatim>\<open>for (int32_t i = (right - left) % numlanes; i > 0; --i)\<close>: the counter is not
  changed by the body, so the loop runs \<open>i\<close> times when \<open>i\<close> is positive and not at all
  otherwise.  The state is the array, the two cursors and the two accumulators.
\<close>

fun scalar_loop ::
  "nat \<Rightarrow> 'a::linorder \<Rightarrow> 'a mem \<times> int \<times> int \<times> 'a \<times> 'a \<Rightarrow> 'a mem \<times> int \<times> int \<times> 'a \<times> 'a" where
  "scalar_loop 0 pivot s = s"
| "scalar_loop (Suc i) pivot (arr, left, right, smallest, biggest) =
     (let smallest' = std_min smallest (arr left);
          biggest' = std_max biggest (arr left)
      in if \<not> comparison_func (arr left) pivot
         then scalar_loop i pivot (std_swap arr left (right - 1), left, right - 1, smallest', biggest')
         else scalar_loop i pivot (arr, left + 1, right, smallest', biggest'))"

definition c_rem :: "int \<Rightarrow> int \<Rightarrow> int" where
  \<comment> \<open>The remainder operator of C++ on signed integers truncates towards zero.\<close>
  "c_rem a b = a smod b"

section \<open>The two-cursor partition\<close>

text \<open>
  The local variables of the vectorised phase: the array, the two load cursors, the two
  store cursors and the two accumulator registers.
\<close>

record 'a cursors =
  c_arr :: "'a mem"
  c_left :: int
  c_right :: int
  c_l_store :: int
  c_r_store :: int
  c_min_vec :: "'a zmm"
  c_max_vec :: "'a zmm"

text \<open>
  \<^verbatim>\<open>while (right - left != 0) { body }\<close>, the main loop of both partition functions.  It
  does not return when the load cursors never meet, which is the value \<open>None\<close>.
\<close>

partial_function (option) while_loop ::
  "('a cursors \<Rightarrow> 'a cursors) \<Rightarrow> 'a cursors \<Rightarrow> 'a cursors option" where
  "while_loop body s =
     (if c_right s - c_left s \<noteq> 0 then while_loop body (body s) else Some s)"

declare while_loop.simps [code]

text \<open>
  One iteration of the main loop of \<^verbatim>\<open>partition_avx512\<close>: choose the side, load one
  register from it, partition it between the two store cursors.
\<close>

definition loop_body :: "nat \<Rightarrow> 'a::linorder zmm \<Rightarrow> 'a cursors \<Rightarrow> 'a cursors" where
  "loop_body N pivot_vec s =
     (let (left', right', curr_vec) =
            (if (c_r_store s + int N) - c_right s < c_left s - c_l_store s
             then (c_left s, c_right s - int N, loadu N (c_arr s) (c_right s - int N))
             else (c_left s + int N, c_right s, loadu N (c_arr s) (c_left s)));
          (arr', min_vec', max_vec', amount_ge_pivot) =
            partition_vec (c_arr s) (c_l_store s) (c_r_store s + int N) curr_vec pivot_vec
              (c_min_vec s) (c_max_vec s)
      in \<lparr>c_arr = arr', c_left = left', c_right = right',
          c_l_store = c_l_store s + (int N - amount_ge_pivot),
          c_r_store = c_r_store s - amount_ge_pivot,
          c_min_vec = min_vec', c_max_vec = max_vec'\<rparr>)"

definition partition_avx512 ::
  "nat \<Rightarrow> 'a::linorder mem \<Rightarrow> int \<Rightarrow> int \<Rightarrow> 'a \<Rightarrow> 'a \<Rightarrow> 'a \<Rightarrow> ('a mem \<times> 'a \<times> 'a \<times> int) option" where
  "partition_avx512 N arr0 left0 right0 pivot smallest0 biggest0 =
     (case scalar_loop (nat (c_rem (right0 - left0) (int N))) pivot
             (arr0, left0, right0, smallest0, biggest0) of
        (arr, left, right, smallest, biggest) \<Rightarrow>
     if left = right then Some (arr, smallest, biggest, left)
     else
       let pivot_vec = set1 N pivot;
           min_vec = set1 N smallest;
           max_vec = set1 N biggest
       in
       if right - left = int N then
         (let vec = loadu N arr left;
              (arr', min_vec', max_vec', amount_ge_pivot) =
                 partition_vec arr left (left + int N) vec pivot_vec min_vec max_vec
          in Some (arr', reducemin min_vec', reducemax max_vec',
                   left + (int N - amount_ge_pivot)))
       else
         (let vec_left = loadu N arr left;
              vec_right = loadu N arr (right - int N);
              s0 = \<lparr>c_arr = arr, c_left = left + int N, c_right = right - int N,
                    c_l_store = left, c_r_store = right - int N,
                    c_min_vec = min_vec, c_max_vec = max_vec\<rparr>
          in case while_loop (loop_body N pivot_vec) s0 of
               None \<Rightarrow> None
             | Some s \<Rightarrow>
                 (let (arr1, min_vec1, max_vec1, amount_ge_pivot1) =
                        partition_vec (c_arr s) (c_l_store s) (c_r_store s + int N) vec_left
                          pivot_vec (c_min_vec s) (c_max_vec s);
                      l_store1 = c_l_store s + (int N - amount_ge_pivot1);
                      (arr2, min_vec2, max_vec2, amount_ge_pivot2) =
                        partition_vec arr1 l_store1 (l_store1 + int N) vec_right
                          pivot_vec min_vec1 max_vec1;
                      l_store2 = l_store1 + (int N - amount_ge_pivot2)
                  in Some (arr2, reducemin min_vec2, reducemax max_vec2, l_store2))))"

section \<open>The unrolled two-cursor partition\<close>

text \<open>
  \<^verbatim>\<open>for (int ii = 0; ii < num_unroll; ++ii) { partition_vec(.., vecs[ii], ..); l_store
  += ..; r_store -= ..; }\<close>: the registers of a batch are partitioned in ascending order.
\<close>

fun partition_vecs :: "nat \<Rightarrow> 'a::linorder zmm \<Rightarrow> 'a zmm list \<Rightarrow> 'a cursors \<Rightarrow> 'a cursors" where
  "partition_vecs N pivot_vec [] s = s"
| "partition_vecs N pivot_vec (v # vs) s =
     (let (arr', min_vec', max_vec', amount_ge_pivot) =
            partition_vec (c_arr s) (c_l_store s) (c_r_store s + int N) v pivot_vec
              (c_min_vec s) (c_max_vec s)
      in partition_vecs N pivot_vec vs
           (s\<lparr>c_arr := arr', c_min_vec := min_vec', c_max_vec := max_vec',
              c_l_store := c_l_store s + (int N - amount_ge_pivot),
              c_r_store := c_r_store s - amount_ge_pivot\<rparr>))"

text \<open>
  The \<^verbatim>\<open>if\<close> statement at the head of the unrolled loop body: choose the side, move
  its load cursor by a whole batch and load \<^verbatim>\<open>curr_vec[0..num_unroll)\<close> from it.
\<close>

definition load_batch :: "nat \<Rightarrow> nat \<Rightarrow> 'a cursors \<Rightarrow> 'a cursors \<times> 'a zmm list" where
  "load_batch N num_unroll s =
     (if (c_r_store s + int N) - c_right s < c_left s - c_l_store s
      then (let s' = s\<lparr>c_right := c_right s - int num_unroll * int N\<rparr>
            in (s', map (\<lambda>ii. loadu N (c_arr s') (c_right s' + int ii * int N)) [0..<num_unroll]))
      else (let curr_vec = map (\<lambda>ii. loadu N (c_arr s) (c_left s + int ii * int N)) [0..<num_unroll]
            in (s\<lparr>c_left := c_left s + int num_unroll * int N\<rparr>, curr_vec)))"

definition loop_body_unrolled ::
  "nat \<Rightarrow> nat \<Rightarrow> 'a::linorder zmm \<Rightarrow> 'a cursors \<Rightarrow> 'a cursors" where
  "loop_body_unrolled N num_unroll pivot_vec s =
     (let (s', curr_vec) = load_batch N num_unroll s
      in partition_vecs N pivot_vec curr_vec s')"

definition partition_avx512_unrolled ::
  "nat \<Rightarrow> nat \<Rightarrow> 'a::linorder mem \<Rightarrow> int \<Rightarrow> int \<Rightarrow> 'a \<Rightarrow> 'a \<Rightarrow> 'a
     \<Rightarrow> ('a mem \<times> 'a \<times> 'a \<times> int) option" where
  "partition_avx512_unrolled N num_unroll arr0 left0 right0 pivot smallest0 biggest0 =
     (if right0 - left0 \<le> 2 * int num_unroll * int N
      then partition_avx512 N arr0 left0 right0 pivot smallest0 biggest0
      else
        case scalar_loop (nat (c_rem (right0 - left0) (int num_unroll * int N))) pivot
               (arr0, left0, right0, smallest0, biggest0) of
          (arr, left, right, smallest, biggest) \<Rightarrow>
        if left = right then Some (arr, smallest, biggest, left)
        else
          let pivot_vec = set1 N pivot;
              min_vec = set1 N smallest;
              max_vec = set1 N biggest;
              vec_left = map (\<lambda>ii. loadu N arr (left + int N * int ii)) [0..<num_unroll];
              vec_right = map (\<lambda>ii. loadu N arr (right - int N * (int num_unroll - int ii)))
                            [0..<num_unroll];
              s0 = \<lparr>c_arr = arr, c_left = left + int num_unroll * int N,
                    c_right = right - int num_unroll * int N,
                    c_l_store = left, c_r_store = right - int N,
                    c_min_vec = min_vec, c_max_vec = max_vec\<rparr>
          in case while_loop (loop_body_unrolled N num_unroll pivot_vec) s0 of
               None \<Rightarrow> None
             | Some s \<Rightarrow>
                 (let s1 = partition_vecs N pivot_vec vec_left s;
                      s2 = partition_vecs N pivot_vec vec_right s1
                  in Some (c_arr s2, reducemin (c_min_vec s2), reducemax (c_max_vec s2),
                           c_l_store s2)))"

section \<open>Partial sort\<close>

text \<open>
  \<^verbatim>\<open>avx512_qselect\<close> and \<^verbatim>\<open>avx512_qsort\<close> are only declared in this header; the
  two calls are parameters of the composite.
\<close>

definition avx512_partial_qsort ::
  "('a mem \<Rightarrow> int \<Rightarrow> int \<Rightarrow> 'a mem) \<Rightarrow> ('a mem \<Rightarrow> int \<Rightarrow> 'a mem) \<Rightarrow> 'a mem \<Rightarrow> int \<Rightarrow> int \<Rightarrow> 'a mem" where
  "avx512_partial_qsort avx512_qselect avx512_qsort arr k arrsize =
     (let arr1 = avx512_qselect arr (k - 1) arrsize
      in avx512_qsort arr1 (k - 1))"

section \<open>The loops with a history of the range length\<close>

text \<open>
  How often a loop runs is not visible in what a function returns.  The functions of this
  section are the scalar remainder loop, the main loop and the two partition functions
  once more, statement by statement, with one addition: every iteration of a loop appends
  the length it leaves to a history.  The scalar loop records \<^verbatim>\<open>right - left\<close> after
  each iteration, the main loop records the distance between the load cursors after each
  iteration.  The length of a history is the number of iterations.
\<close>

fun scalar_loop_log ::
  "nat \<Rightarrow> 'a::linorder \<Rightarrow> 'a mem \<times> int \<times> int \<times> 'a \<times> 'a \<Rightarrow> int list
     \<Rightarrow> ('a mem \<times> int \<times> int \<times> 'a \<times> 'a) \<times> int list" where
  "scalar_loop_log 0 pivot s h = (s, h)"
| "scalar_loop_log (Suc i) pivot (arr, left, right, smallest, biggest) h =
     (let smallest' = std_min smallest (arr left);
          biggest' = std_max biggest (arr left)
      in if \<not> comparison_func (arr left) pivot
         then scalar_loop_log i pivot
                (std_swap arr left (right - 1), left, right - 1, smallest', biggest')
                (h @ [(right - 1) - left])
         else scalar_loop_log i pivot (arr, left + 1, right, smallest', biggest')
                (h @ [right - (left + 1)]))"

partial_function (option) while_loop_log ::
  "('a cursors \<Rightarrow> 'a cursors) \<Rightarrow> 'a cursors \<Rightarrow> int list \<Rightarrow> ('a cursors \<times> int list) option" where
  "while_loop_log body s h =
     (if c_right s - c_left s \<noteq> 0
      then while_loop_log body (body s) (h @ [c_right (body s) - c_left (body s)])
      else Some (s, h))"

declare while_loop_log.simps [code]

text \<open>
  \<^verbatim>\<open>partition_avx512\<close> with the histories of its scalar loop and of its main loop; the
  paths that return before the main loop leave the second history empty.
\<close>

definition partition_avx512_log ::
  "nat \<Rightarrow> 'a::linorder mem \<Rightarrow> int \<Rightarrow> int \<Rightarrow> 'a \<Rightarrow> 'a \<Rightarrow> 'a
     \<Rightarrow> (('a mem \<times> 'a \<times> 'a \<times> int) \<times> int list \<times> int list) option" where
  "partition_avx512_log N arr0 left0 right0 pivot smallest0 biggest0 =
     (case scalar_loop_log (nat (c_rem (right0 - left0) (int N))) pivot
             (arr0, left0, right0, smallest0, biggest0) [] of
        ((arr, left, right, smallest, biggest), hs) \<Rightarrow>
     if left = right then Some ((arr, smallest, biggest, left), hs, [])
     else
       let pivot_vec = set1 N pivot;
           min_vec = set1 N smallest;
           max_vec = set1 N biggest
       in
       if right - left = int N then
         (let vec = loadu N arr left;
              (arr', min_vec', max_vec', amount_ge_pivot) =
                 partition_vec arr left (left + int N) vec pivot_vec min_vec max_vec
          in Some ((arr', reducemin min_vec', reducemax max_vec',
                    left + (int N - amount_ge_pivot)), hs, []))
       else
         (let vec_left = loadu N arr left;
              vec_right = loadu N arr (right - int N);
              s0 = \<lparr>c_arr = arr, c_left = left + int N, c_right = right - int N,
                    c_l_store = left, c_r_store = right - int N,
                    c_min_vec = min_vec, c_max_vec = max_vec\<rparr>
          in case while_loop_log (loop_body N pivot_vec) s0 [] of
               None \<Rightarrow> None
             | Some (s, hm) \<Rightarrow>
                 (let (arr1, min_vec1, max_vec1, amount_ge_pivot1) =
                        partition_vec (c_arr s) (c_l_store s) (c_r_store s + int N) vec_left
                          pivot_vec (c_min_vec s) (c_max_vec s);
                      l_store1 = c_l_store s + (int N - amount_ge_pivot1);
                      (arr2, min_vec2, max_vec2, amount_ge_pivot2) =
                        partition_vec arr1 l_store1 (l_store1 + int N) vec_right
                          pivot_vec min_vec1 max_vec1;
                      l_store2 = l_store1 + (int N - amount_ge_pivot2)
                  in Some ((arr2, reducemin min_vec2, reducemax max_vec2, l_store2), hs, hm))))"

text \<open>
  \<^verbatim>\<open>partition_avx512_unrolled\<close> with the two histories; on a range of at most
  \<^verbatim>\<open>2 * num_unroll * numlanes\<close> elements the histories are those of the call to
  \<^verbatim>\<open>partition_avx512\<close>.
\<close>

definition partition_avx512_unrolled_log ::
  "nat \<Rightarrow> nat \<Rightarrow> 'a::linorder mem \<Rightarrow> int \<Rightarrow> int \<Rightarrow> 'a \<Rightarrow> 'a \<Rightarrow> 'a
     \<Rightarrow> (('a mem \<times> 'a \<times> 'a \<times> int) \<times> int list \<times> int list) option" where
  "partition_avx512_unrolled_log N num_unroll arr0 left0 right0 pivot smallest0 biggest0 =
     (if right0 - left0 \<le> 2 * int num_unroll * int N
      then partition_avx512_log N arr0 left0 right0 pivot smallest0 biggest0
      else
        case scalar_loop_log (nat (c_rem (right0 - left0) (int num_unroll * int N))) pivot
               (arr0, left0, right0, smallest0, biggest0) [] of
          ((arr, left, right, smallest, biggest), hs) \<Rightarrow>
        if left = right then Some ((arr, smallest, biggest, left), hs, [])
        else
          let pivot_vec = set1 N pivot;
              min_vec = set1 N smallest;
              max_vec = set1 N biggest;
              vec_left = map (\<lambda>ii. loadu N arr (left + int N * int ii)) [0..<num_unroll];
              vec_right = map (\<lambda>ii. loadu N arr (right - int N * (int num_unroll - int ii)))
                            [0..<num_unroll];
              s0 = \<lparr>c_arr = arr, c_left = left + int num_unroll * int N,
                    c_right = right - int num_unroll * int N,
                    c_l_store = left, c_r_store = right - int N,
                    c_min_vec = min_vec, c_max_vec = max_vec\<rparr>
          in case while_loop_log (loop_body_unrolled N num_unroll pivot_vec) s0 [] of
               None \<Rightarrow> None
             | Some (s, hm) \<Rightarrow>
                 (let s1 = partition_vecs N pivot_vec vec_left s;
                      s2 = partition_vecs N pivot_vec vec_right s1
                  in Some ((c_arr s2, reducemin (c_min_vec s2), reducemax (c_max_vec s2),
                            c_l_store s2), hs, hm)))"

section \<open>Vocabulary of the specification\<close>

text \<open>
  The multiset of the elements stored in the index range \<open>[a, b)\<close>.
\<close>

definition mrange :: "'a mem \<Rightarrow> int \<Rightarrow> int \<Rightarrow> 'a multiset" where
  "mrange arr a b = mset (loadu (nat (b - a)) arr a)"

text \<open>
  The lanes of a register that compare below the corresponding lane of the pivot
  register, and those that compare greater or equal, each in ascending lane order.
\<close>

definition lanes_lt :: "'a::linorder zmm \<Rightarrow> 'a zmm \<Rightarrow> 'a list" where
  "lanes_lt v pv = map fst (filter (\<lambda>(x, y). x < y) (zip v pv))"

definition lanes_ge :: "'a::linorder zmm \<Rightarrow> 'a zmm \<Rightarrow> 'a list" where
  "lanes_ge v pv = map fst (filter (\<lambda>(x, y). y \<le> x) (zip v pv))"

text \<open>
  \<open>stored p arr arr' l l' R' R xs\<close>: the elements \<open>xs\<close> have been distributed between
  the two store cursors, the low cursor moving from \<open>l\<close> to \<open>l'\<close> and the high one from
  \<open>R\<close> down to \<open>R'\<close>, and nothing else has changed.
\<close>

definition stored ::
  "'a::linorder \<Rightarrow> 'a mem \<Rightarrow> 'a mem \<Rightarrow> int \<Rightarrow> int \<Rightarrow> int \<Rightarrow> int \<Rightarrow> 'a list \<Rightarrow> bool" where
  "stored p arr arr' l l' R' R xs \<longleftrightarrow>
     l' = l + int (length (filter (\<lambda>x. x < p) xs)) \<and>
     R' = R - int (length (filter (\<lambda>x. p \<le> x) xs)) \<and>
     mrange arr' l l' = mset (filter (\<lambda>x. x < p) xs) \<and>
     mrange arr' R' R = mset (filter (\<lambda>x. p \<le> x) xs) \<and>
     (\<forall>i. i < l \<or> (l' \<le> i \<and> i < R') \<or> R \<le> i \<longrightarrow> arr' i = arr i)"

text \<open>
  The elements already stored on either side of the range \<open>[L0, R0)\<close>.
\<close>

definition processed :: "nat \<Rightarrow> int \<Rightarrow> int \<Rightarrow> 'a cursors \<Rightarrow> 'a multiset" where
  "processed N L0 R0 s = mrange (c_arr s) L0 (c_l_store s) + mrange (c_arr s) (c_r_store s + int N) R0"

text \<open>
  The invariant of the vectorised phase on the range \<open>[L0, R0)\<close> of the array \<open>arr0\<close>.
  The slots \<open>[lft, rgt)\<close> are not loaded yet, \<open>P\<close> are the elements held in registers,
  \<open>sm\<close> and \<open>bg\<close> the accumulators at the start of the phase.
\<close>

definition cursor_inv ::
  "nat \<Rightarrow> 'a::linorder \<Rightarrow> 'a mem \<Rightarrow> int \<Rightarrow> int \<Rightarrow> int \<Rightarrow> int \<Rightarrow> 'a multiset \<Rightarrow> 'a \<Rightarrow> 'a \<Rightarrow> 'a cursors \<Rightarrow> bool" where
  "cursor_inv N p arr0 L0 R0 lft rgt P sm bg s \<longleftrightarrow>
     L0 \<le> c_l_store s \<and> c_l_store s \<le> lft \<and> lft \<le> rgt \<and> rgt \<le> c_r_store s + int N \<and>
     c_r_store s + int N \<le> R0 \<and>
     (lft - c_l_store s) + (c_r_store s + int N - rgt) = int (size P) \<and>
     (\<forall>i. L0 \<le> i \<and> i < c_l_store s \<longrightarrow> c_arr s i < p) \<and>
     (\<forall>i. c_r_store s + int N \<le> i \<and> i < R0 \<longrightarrow> p \<le> c_arr s i) \<and>
     (\<forall>i. (lft \<le> i \<and> i < rgt) \<or> i < L0 \<or> R0 \<le> i \<longrightarrow> c_arr s i = arr0 i) \<and>
     processed N L0 R0 s + mrange arr0 lft rgt + P = mrange arr0 L0 R0 \<and>
     length (c_min_vec s) = N \<and> length (c_max_vec s) = N \<and>
     Min (set (c_min_vec s)) = Min (insert sm (set_mset (processed N L0 R0 s))) \<and>
     Max (set (c_max_vec s)) = Max (insert bg (set_mset (processed N L0 R0 s)))"

text \<open>
  What the scalar remainder loop establishes, from \<open>(arr, l, r, sm, bg)\<close> to
  \<open>(arr', l', r', sm', bg')\<close>.
\<close>

definition scalar_post ::
  "'a::linorder \<Rightarrow> 'a mem \<Rightarrow> int \<Rightarrow> int \<Rightarrow> 'a \<Rightarrow> 'a \<Rightarrow> 'a mem \<Rightarrow> int \<Rightarrow> int \<Rightarrow> 'a \<Rightarrow> 'a \<Rightarrow> bool" where
  "scalar_post p arr l r sm bg arr' l' r' sm' bg' \<longleftrightarrow>
     l \<le> l' \<and> l' \<le> r' \<and> r' \<le> r \<and>
     (\<forall>i. l \<le> i \<and> i < l' \<longrightarrow> arr' i < p) \<and>
     (\<forall>i. r' \<le> i \<and> i < r \<longrightarrow> p \<le> arr' i) \<and>
     (\<forall>i. i < l \<or> r \<le> i \<longrightarrow> arr' i = arr i) \<and>
     mrange arr' l r = mrange arr l r \<and>
     sm' = Min (insert sm (set_mset (mrange arr' l l' + mrange arr' r' r))) \<and>
     bg' = Max (insert bg (set_mset (mrange arr' l l' + mrange arr' r' r)))"

text \<open>
  The contract of a partition call on \<open>[L, R)\<close> with pivot \<open>p\<close> and incoming accumulators
  \<open>sm\<close>, \<open>bg\<close>: the result is the new array, the two accumulators and the boundary.
\<close>

definition partition_post ::
  "'a::linorder \<Rightarrow> 'a mem \<Rightarrow> int \<Rightarrow> int \<Rightarrow> 'a \<Rightarrow> 'a \<Rightarrow> 'a mem \<times> 'a \<times> 'a \<times> int \<Rightarrow> bool" where
  "partition_post p arr L R sm bg res \<longleftrightarrow>
     (case res of (arr', sm', bg', b) \<Rightarrow>
        L \<le> b \<and> b \<le> R \<and>
        (\<forall>i. L \<le> i \<and> i < b \<longrightarrow> arr' i < p) \<and>
        (\<forall>i. b \<le> i \<and> i < R \<longrightarrow> p \<le> arr' i) \<and>
        (\<forall>i. i < L \<or> R \<le> i \<longrightarrow> arr' i = arr i) \<and>
        mrange arr' L R = mrange arr L R \<and>
        sm' = Min (insert sm (set_mset (mrange arr L R))) \<and>
        bg' = Max (insert bg (set_mset (mrange arr L R))))"

text \<open>
  The store that agrees with \<open>a\<close> on the index range \<open>[L, R)\<close> and with \<open>z\<close>
  everywhere else.
\<close>

definition ovr :: "int \<Rightarrow> int \<Rightarrow> 'a mem \<Rightarrow> 'a mem \<Rightarrow> 'a mem" where
  "ovr L R a z = (\<lambda>i. if L \<le> i \<and> i < R then a i else z i)"

text \<open>
  The array of the first example of the specification, \<open>[5, 3, 8, 1, 9, 2, 7, 4]\<close> at
  the indices \<open>0, \<dots>, 7\<close>, used to instantiate the theorems.
\<close>

definition example_array :: "int mem" where
  "example_array i = (if 0 \<le> i \<and> i < 8 then [5, 3, 8, 1, 9, 2, 7, 4] ! nat i else 0)"

text \<open>
  \<^verbatim>\<open>avx512_qsort\<close> and \<^verbatim>\<open>avx512_qselect\<close> are declared in the header and defined
  elsewhere.  Their contracts, and one implementation of each contract.
\<close>

definition qsort_contract :: "('a::linorder mem \<Rightarrow> int \<Rightarrow> 'a mem) \<Rightarrow> bool" where
  \<comment> \<open>Modelled from the spec: \<^verbatim>\<open>avx512_qsort(arr, arrsize)\<close>, whose definition is missing,
      sorts the first \<open>arrsize\<close> elements in place in ascending order and touches nothing
      else.\<close>
  "qsort_contract qs \<longleftrightarrow>
     (\<forall>arr n. 0 \<le> n \<longrightarrow>
        sorted (loadu (nat n) (qs arr n) 0) \<and>
        mrange (qs arr n) 0 n = mrange arr 0 n \<and>
        (\<forall>i. i < 0 \<or> n \<le> i \<longrightarrow> qs arr n i = arr i))"

definition qselect_contract :: "('a::linorder mem \<Rightarrow> int \<Rightarrow> int \<Rightarrow> 'a mem) \<Rightarrow> bool" where
  \<comment> \<open>Modelled from the spec: \<^verbatim>\<open>avx512_qselect(arr, k, arrsize)\<close>, whose definition is
      missing, selects an order statistic by quickselect: it permutes the first \<open>arrsize\<close>
      elements in place so that no element before index \<open>k\<close> is above the element at \<open>k\<close>
      and no element after it is below, and touches nothing else.\<close>
  "qselect_contract sel \<longleftrightarrow>
     (\<forall>arr k n. 0 \<le> k \<and> k < n \<longrightarrow>
        mrange (sel arr k n) 0 n = mrange arr 0 n \<and>
        (\<forall>i. 0 \<le> i \<and> i < k \<longrightarrow> sel arr k n i \<le> sel arr k n k) \<and>
        (\<forall>j. k < j \<and> j < n \<longrightarrow> sel arr k n k \<le> sel arr k n j) \<and>
        (\<forall>i. i < 0 \<or> n \<le> i \<longrightarrow> sel arr k n i = arr i))"

definition ref_qsort :: "'a::linorder mem \<Rightarrow> int \<Rightarrow> 'a mem" where
  \<comment> \<open>Modelled from the spec: a sort of the first \<open>n\<close> elements, standing for the missing
      \<^verbatim>\<open>avx512_qsort\<close>.\<close>
  "ref_qsort arr n = write_seq arr 0 (sort (loadu (nat n) arr 0))"

definition ref_qselect :: "'a::linorder mem \<Rightarrow> int \<Rightarrow> int \<Rightarrow> 'a mem" where
  \<comment> \<open>Modelled from the spec: a selection by sorting all \<open>n\<close> elements, standing for the
      missing \<^verbatim>\<open>avx512_qselect\<close>.\<close>
  "ref_qselect arr k n = ref_qsort arr n"

section \<open>Supporting lemmas\<close>

subsection \<open>Memory ranges\<close>

lemma write_seq_outside:
  "i < p \<or> p + int (length xs) \<le> i \<Longrightarrow> write_seq arr p xs i = arr i"
  by (induction xs arbitrary: arr p) auto

lemma write_seq_inside:
  "p \<le> i \<Longrightarrow> i < p + int (length xs) \<Longrightarrow> write_seq arr p xs i = xs ! nat (i - p)"
proof (induction xs arbitrary: arr p)
  case Nil
  then show ?case by simp
next
  case (Cons x xs)
  show ?case
  proof (cases "i = p")
    case True
    then show ?thesis by (simp add: write_seq_outside)
  next
    case False
    with Cons.prems have "p + 1 \<le> i" "i < p + 1 + int (length xs)" by auto
    from Cons.IH[OF this] have "write_seq (arr(p := x)) (p + 1) xs i = xs ! nat (i - (p + 1))" .
    moreover have "nat (i - p) = Suc (nat (i - (p + 1)))" using \<open>p + 1 \<le> i\<close> by simp
    ultimately show ?thesis by simp
  qed
qed

lemma length_loadu [simp]: "length (loadu n arr p) = n"
  by (simp add: loadu_def)

lemma nth_loadu [simp]: "i < n \<Longrightarrow> loadu n arr p ! i = arr (p + int i)"
  by (simp add: loadu_def)

lemma loadu_write_seq: "loadu (length xs) (write_seq arr p xs) p = xs"
  by (rule nth_equalityI) (simp_all add: write_seq_inside)

lemma loadu_cong:
  "(\<And>i. p \<le> i \<Longrightarrow> i < p + int n \<Longrightarrow> arr i = arr' i) \<Longrightarrow> loadu n arr p = loadu n arr' p"
  by (rule nth_equalityI) simp_all

lemma loadu_add: "loadu (m + n) arr p = loadu m arr p @ loadu n arr (p + int m)"
  by (rule nth_equalityI) (auto simp: nth_append)

lemma mrange_alt: "mrange arr a b = image_mset arr (mset_set {a..<b})"
proof -
  have "\<And>a. mset (loadu n arr a) = image_mset arr (mset_set {a..<a + int n})" for n
  proof (induction n)
    case 0
    then show ?case by (simp add: loadu_def)
  next
    case (Suc n)
    have "{a..<a + int (Suc n)} = insert (a + int n) {a..<a + int n}" by auto
    moreover have "loadu (Suc n) arr a = loadu n arr a @ [arr (a + int n)]"
      using loadu_add[of n 1 arr a] by (simp add: loadu_def)
    ultimately show ?case using Suc by simp
  qed
  from this[of "nat (b - a)" a] show ?thesis
    by (cases "a \<le> b") (simp_all add: mrange_def loadu_def)
qed

lemma mrange_empty [simp]: "b \<le> a \<Longrightarrow> mrange arr a b = {#}"
  by (simp add: mrange_alt)

lemma mrange_split: "a \<le> b \<Longrightarrow> b \<le> c \<Longrightarrow> mrange arr a c = mrange arr a b + mrange arr b c"
proof -
  assume "a \<le> b" "b \<le> c"
  then have "{a..<c} = {a..<b} \<union> {b..<c}" "{a..<b} \<inter> {b..<c} = {}" by auto
  then show ?thesis
    by (simp add: mrange_alt mset_set_Union)
qed

lemma mrange_cong:
  "(\<And>i. a \<le> i \<Longrightarrow> i < b \<Longrightarrow> arr i = arr' i) \<Longrightarrow> mrange arr a b = mrange arr' a b"
  unfolding mrange_alt by (rule image_mset_cong) simp

lemma in_mrange: "x \<in># mrange arr a b \<longleftrightarrow> (\<exists>i. a \<le> i \<and> i < b \<and> x = arr i)"
  by (auto simp: mrange_alt)

lemma set_mset_mrange: "set_mset (mrange arr a b) = arr ` {a..<b}"
  by (auto simp: mrange_alt)

lemma size_mrange [simp]: "size (mrange arr a b) = nat (b - a)"
  by (simp add: mrange_def)

lemma mrange_write_seq: "mrange (write_seq arr p xs) p (p + int (length xs)) = mset xs"
  by (simp add: mrange_def loadu_write_seq)

lemma mrange_single: "mrange arr a (a + 1) = {#arr a#}"
  by (simp add: mrange_def loadu_def)

subsection \<open>Vector operations\<close>

lemma compress_ge:
  "length v = length pv \<Longrightarrow> map fst (filter snd (zip v (ge v pv))) = lanes_ge v pv"
  by (induction v pv rule: list_induct2) (simp_all add: ge_def lanes_ge_def)

lemma compress_knot_ge:
  "length v = length pv \<Longrightarrow> map fst (filter snd (zip v (knot_opmask (ge v pv)))) = lanes_lt v pv"
  by (induction v pv rule: list_induct2) (auto simp add: ge_def lanes_lt_def knot_opmask_def)

lemma count_ge:
  "length v = length pv \<Longrightarrow> length (filter id (ge v pv)) = length (lanes_ge v pv)"
  by (induction v pv rule: list_induct2) (simp_all add: ge_def lanes_ge_def)

lemma length_ge [simp]: "length (ge v pv) = min (length v) (length pv)"
  by (simp add: ge_def)

lemma popcnt_ge:
  "length v = length pv \<Longrightarrow> length v \<le> 32 \<Longrightarrow> popcnt_u32 (ge v pv) = int (length (lanes_ge v pv))"
  by (simp add: popcnt_u32_def count_ge)

lemma length_lanes: "length v = length pv \<Longrightarrow> length (lanes_lt v pv) + length (lanes_ge v pv) = length v"
  by (induction v pv rule: list_induct2) (auto simp add: lanes_lt_def lanes_ge_def)

lemma mset_lanes: "length v = length pv \<Longrightarrow> mset (lanes_lt v pv) + mset (lanes_ge v pv) = mset v"
  by (induction v pv rule: list_induct2) (auto simp add: lanes_lt_def lanes_ge_def)

lemma lanes_lt_replicate: "lanes_lt v (replicate (length v) p) = filter (\<lambda>x. x < p) v"
  by (induction v) (simp_all add: lanes_lt_def)

lemma lanes_ge_replicate: "lanes_ge v (replicate (length v) p) = filter (\<lambda>x. p \<le> x) v"
  by (induction v) (simp_all add: lanes_ge_def)

lemma partition_vec_eq:
  assumes "length v = length pv" "length v \<le> 32"
  shows "partition_vec arr l r v pv mn mx =
           (write_seq (write_seq arr l (lanes_lt v pv)) (r - int (length (lanes_ge v pv))) (lanes_ge v pv),
            vmin v mn, vmax v mx, int (length (lanes_ge v pv)))"
  using assms
  by (simp add: partition_vec_def Let_def mask_compressstoreu_def compress_ge compress_knot_ge popcnt_ge)

lemma reducemin_Min: "v \<noteq> [] \<Longrightarrow> reducemin v = Min (set v)"
  using Min.set_eq_fold[of "hd v" "tl v"] by (cases v) (simp_all add: reducemin_def)

lemma reducemax_Max: "v \<noteq> [] \<Longrightarrow> reducemax v = Max (set v)"
  using Max.set_eq_fold[of "hd v" "tl v"] by (cases v) (simp_all add: reducemax_def)

lemma length_vmin [simp]: "length (vmin a b) = min (length a) (length b)"
  by (simp add: vmin_def)

lemma length_vmax [simp]: "length (vmax a b) = min (length a) (length b)"
  by (simp add: vmax_def)

lemma Min_vmin:
  "length a = length b \<Longrightarrow> a \<noteq> [] \<Longrightarrow> Min (set (vmin a b)) = min (Min (set a)) (Min (set b))"
proof (induction a b rule: list_induct2)
  case Nil
  then show ?case by simp
next
  case (Cons x xs y ys)
  show ?case
  proof (cases "xs = []")
    case True
    with Cons show ?thesis by (simp add: vmin_def)
  next
    case False
    with Cons have ys: "ys \<noteq> []" by auto
    have ne: "set (vmin xs ys) \<noteq> {}" using False ys Cons.hyps by (cases xs; cases ys) (auto simp: vmin_def)
    have "Min (set (vmin (x # xs) (y # ys))) = min (min x y) (Min (set (vmin xs ys)))"
      using ne by (simp add: vmin_def)
    also have "\<dots> = min (min x y) (min (Min (set xs)) (Min (set ys)))"
      using Cons.IH False by simp
    also have "\<dots> = min (Min (set (x # xs))) (Min (set (y # ys)))"
      using False ys by (simp add: min.assoc min.left_commute)
    finally show ?thesis .
  qed
qed

lemma Max_vmax:
  "length a = length b \<Longrightarrow> a \<noteq> [] \<Longrightarrow> Max (set (vmax a b)) = max (Max (set a)) (Max (set b))"
proof (induction a b rule: list_induct2)
  case Nil
  then show ?case by simp
next
  case (Cons x xs y ys)
  show ?case
  proof (cases "xs = []")
    case True
    with Cons show ?thesis by (simp add: vmax_def)
  next
    case False
    with Cons have ys: "ys \<noteq> []" by auto
    have ne: "set (vmax xs ys) \<noteq> {}" using False ys Cons.hyps by (cases xs; cases ys) (auto simp: vmax_def)
    have "Max (set (vmax (x # xs) (y # ys))) = max (max x y) (Max (set (vmax xs ys)))"
      using ne by (simp add: vmax_def)
    also have "\<dots> = max (max x y) (max (Max (set xs)) (Max (set ys)))"
      using Cons.IH False by simp
    also have "\<dots> = max (Max (set (x # xs))) (Max (set (y # ys)))"
      using False ys by (simp add: max.assoc max.left_commute)
    finally show ?thesis .
  qed
qed

lemma nth_vmin: "i < length a \<Longrightarrow> i < length b \<Longrightarrow> vmin a b ! i = min (a ! i) (b ! i)"
  by (simp add: vmin_def)

lemma nth_vmax: "i < length a \<Longrightarrow> i < length b \<Longrightarrow> vmax a b ! i = max (a ! i) (b ! i)"
  by (simp add: vmax_def)

lemma COEX_eq: "COEX a b = (vmin a b, vmax a b)"
  by (simp add: COEX_def)

lemma COEX_lanes:
  assumes "length a = length b" "COEX a b = (a', b')" "i < length a"
  shows "a' ! i \<le> b' ! i \<and> {#a' ! i, b' ! i#} = {#a ! i, b ! i#}"
  using assms by (auto simp: COEX_eq nth_vmin nth_vmax min_def max_def)

lemma min_min_max: "min (min x y) (max x y) = min x (y::'a::linorder)"
  by (auto simp add: min_def max_def)

lemma max_min_max: "max (min x y) (max x y) = max x (y::'a::linorder)"
  by (auto simp add: min_def max_def)

lemma vmin_vmin_vmax: "vmin (vmin a b) (vmax a b) = vmin a b"
proof (rule nth_equalityI)
  show "length (vmin (vmin a b) (vmax a b)) = length (vmin a b)" by simp
next
  fix i assume "i < length (vmin (vmin a b) (vmax a b))"
  then have "i < length a" "i < length b" by simp_all
  then show "vmin (vmin a b) (vmax a b) ! i = vmin a b ! i"
    by (simp add: nth_vmin nth_vmax min_min_max)
qed

lemma vmax_vmin_vmax: "vmax (vmin a b) (vmax a b) = vmax a b"
proof (rule nth_equalityI)
  show "length (vmax (vmin a b) (vmax a b)) = length (vmax a b)" by simp
next
  fix i assume "i < length (vmax (vmin a b) (vmax a b))"
  then have "i < length a" "i < length b" by simp_all
  then show "vmax (vmin a b) (vmax a b) ! i = vmax a b ! i"
    by (simp add: nth_vmin nth_vmax max_min_max)
qed

lemma COEX_idem: "COEX a b = (a', b') \<Longrightarrow> COEX a' b' = (a', b')"
  by (auto simp: COEX_eq vmin_vmin_vmax vmax_vmin_vmax)

subsection \<open>Storing a batch of registers\<close>

text \<open>
  A run of \<open>partition_vec\<close> calls distributes the lanes of its registers between the two
  store cursors, provided the cursors are far enough apart for all of them.
\<close>

lemma length_filter_split:
  "length (filter (\<lambda>x. x < p) xs) + length (filter (\<lambda>x. (p::'a::linorder) \<le> x) xs) = length xs"
  by (induction xs) auto

lemma stored_refl: "stored p arr arr l l R R []"
  by (simp add: stored_def)

lemma stored_step:
  fixes p :: "'a::linorder"
  assumes len: "length v = N" "N \<le> 32" and room: "l + int N \<le> R"
    and pv: "partition_vec arr l R v (set1 N p) mn mx = (arr', mn', mx', k)"
  shows "stored p arr arr' l (l + (int N - k)) (R - k) R v \<and> mn' = vmin v mn \<and> mx' = vmax v mx"
proof -
  let ?lo = "filter (\<lambda>x. x < p) v" and ?hi = "filter (\<lambda>x. p \<le> x) v"
  have eq: "partition_vec arr l R v (set1 N p) mn mx =
      (write_seq (write_seq arr l ?lo) (R - int (length ?hi)) ?hi, vmin v mn, vmax v mx, int (length ?hi))"
    using partition_vec_eq[of v "set1 N p" arr l R mn mx] len
    by (simp add: set1_def lanes_lt_replicate[of v p, simplified len(1)]
        lanes_ge_replicate[of v p, simplified len(1)])
  from eq pv have k: "k = int (length ?hi)" and arr': "arr' = write_seq (write_seq arr l ?lo) (R - int (length ?hi)) ?hi"
    and mm: "mn' = vmin v mn" "mx' = vmax v mx" by simp_all
  have sum: "int (length ?lo) + int (length ?hi) = int N"
    using length_filter_split[of p v] len by linarith
  have l': "l + (int N - k) = l + int (length ?lo)" using sum k by simp
  have lo: "mrange arr' l (l + int (length ?lo)) = mset ?lo"
  proof -
    have "mrange arr' l (l + int (length ?lo)) = mrange (write_seq arr l ?lo) l (l + int (length ?lo))"
      unfolding arr' using sum room by (intro mrange_cong write_seq_outside) linarith
    then show ?thesis by (simp add: mrange_write_seq)
  qed
  have hi: "mrange arr' (R - k) R = mset ?hi"
    using mrange_write_seq[of "write_seq arr l ?lo" "R - int (length ?hi)" ?hi]
    by (simp add: arr' k)
  have frame: "arr' i = arr i" if "i < l \<or> (l + int (length ?lo) \<le> i \<and> i < R - k) \<or> R \<le> i" for i
  proof -
    have "arr' i = write_seq arr l ?lo i"
      unfolding arr' using that sum room k by (intro write_seq_outside) linarith
    also have "\<dots> = arr i"
      using that sum room k by (intro write_seq_outside) linarith
    finally show ?thesis .
  qed
  show ?thesis
    unfolding stored_def using lo hi frame mm k l' by simp
qed

lemma stored_trans:
  fixes p :: "'a::linorder"
  assumes a: "stored p arr arr1 l l1 R1 R xs" and b: "stored p arr1 arr2 l1 l2 R2 R1 ys"
    and room: "l2 \<le> R2"
  shows "stored p arr arr2 l l2 R2 R (xs @ ys)"
proof -
  from a have a1: "l1 = l + int (length (filter (\<lambda>x. x < p) xs))"
    and a2: "R1 = R - int (length (filter (\<lambda>x. p \<le> x) xs))"
    and a3: "mrange arr1 l l1 = mset (filter (\<lambda>x. x < p) xs)"
    and a4: "mrange arr1 R1 R = mset (filter (\<lambda>x. p \<le> x) xs)"
    and f1: "\<And>i. i < l \<or> (l1 \<le> i \<and> i < R1) \<or> R \<le> i \<Longrightarrow> arr1 i = arr i"
    unfolding stored_def by blast+
  from b have b1: "l2 = l1 + int (length (filter (\<lambda>x. x < p) ys))"
    and b2: "R2 = R1 - int (length (filter (\<lambda>x. p \<le> x) ys))"
    and b3: "mrange arr2 l1 l2 = mset (filter (\<lambda>x. x < p) ys)"
    and b4: "mrange arr2 R2 R1 = mset (filter (\<lambda>x. p \<le> x) ys)"
    and f2: "\<And>i. i < l1 \<or> (l2 \<le> i \<and> i < R2) \<or> R1 \<le> i \<Longrightarrow> arr2 i = arr1 i"
    unfolding stored_def by blast+
  have ord: "l \<le> l1" "l1 \<le> l2" "R2 \<le> R1" "R1 \<le> R"
    using a1 a2 b1 b2 by simp_all
  have lo: "mrange arr2 l l2 = mset (filter (\<lambda>x. x < p) (xs @ ys))"
  proof -
    have "mrange arr2 l l2 = mrange arr2 l l1 + mrange arr2 l1 l2"
      using ord by (intro mrange_split)
    also have "mrange arr2 l l1 = mrange arr1 l l1"
      by (intro mrange_cong f2) simp
    finally show ?thesis by (simp only: a3 b3 filter_append mset_append)
  qed
  have hi: "mrange arr2 R2 R = mset (filter (\<lambda>x. p \<le> x) (xs @ ys))"
  proof -
    have "mrange arr2 R2 R = mrange arr2 R2 R1 + mrange arr2 R1 R"
      using ord by (intro mrange_split)
    also have "mrange arr2 R1 R = mrange arr1 R1 R"
      by (intro mrange_cong f2) simp
    finally show ?thesis by (simp only: a4 b4 filter_append mset_append add.commute)
  qed
  have frame: "arr2 i = arr i" if "i < l \<or> (l2 \<le> i \<and> i < R2) \<or> R \<le> i" for i
  proof -
    have "arr2 i = arr1 i" using that ord by (intro f2) linarith
    also have "\<dots> = arr i" using that ord room by (intro f1) linarith
    finally show ?thesis .
  qed
  have "l2 = l + int (length (filter (\<lambda>x. x < p) (xs @ ys)))"
       "R2 = R - int (length (filter (\<lambda>x. p \<le> x) (xs @ ys)))"
    using a1 a2 b1 b2 by simp_all
  with lo hi frame show ?thesis unfolding stored_def by blast
qed

lemma partition_vecs_stored:
  fixes p :: "'a::linorder"
  assumes "\<forall>v\<in>set vs. length v = N" "N \<le> 32"
    and "c_l_store s + int (length (concat vs)) \<le> c_r_store s + int N"
  shows "stored p (c_arr s) (c_arr (partition_vecs N (set1 N p) vs s))
           (c_l_store s) (c_l_store (partition_vecs N (set1 N p) vs s))
           (c_r_store (partition_vecs N (set1 N p) vs s) + int N) (c_r_store s + int N) (concat vs)"
  using assms
proof (induction vs arbitrary: s)
  case Nil
  then show ?case by (simp add: stored_refl)
next
  case (Cons v vs)
  obtain arr' mn' mx' k where pv:
    "partition_vec (c_arr s) (c_l_store s) (c_r_store s + int N) v (set1 N p) (c_min_vec s) (c_max_vec s)
       = (arr', mn', mx', k)"
    by (cases "partition_vec (c_arr s) (c_l_store s) (c_r_store s + int N) v (set1 N p) (c_min_vec s) (c_max_vec s)") auto
  define s1 where "s1 = s\<lparr>c_arr := arr', c_min_vec := mn', c_max_vec := mx',
              c_l_store := c_l_store s + (int N - k), c_r_store := c_r_store s - k\<rparr>"
  have step: "partition_vecs N (set1 N p) (v # vs) s = partition_vecs N (set1 N p) vs s1"
    by (simp add: pv s1_def)
  have lenv: "length v = N" using Cons.prems by simp
  have room1: "c_l_store s + int N \<le> c_r_store s + int N"
    using Cons.prems(3) lenv by simp
  have e: "c_r_store s - k + int N = c_r_store s + int N - k" by simp
  from stored_step[OF lenv Cons.prems(2) room1 pv]
  have st1: "stored p (c_arr s) (c_arr s1) (c_l_store s) (c_l_store s1) (c_r_store s1 + int N) (c_r_store s + int N) v"
    by (simp add: s1_def e)
  then have cur: "c_l_store s1 = c_l_store s + int (length (filter (\<lambda>x. x < p) v))"
    "c_r_store s1 + int N = c_r_store s + int N - int (length (filter (\<lambda>x. p \<le> x) v))"
    by (simp_all add: stored_def)
  have room2: "c_l_store s1 + int (length (concat vs)) \<le> c_r_store s1 + int N"
    using cur Cons.prems(3) length_filter_split[of p v] by simp
  have IH: "stored p (c_arr s1) (c_arr (partition_vecs N (set1 N p) vs s1))
           (c_l_store s1) (c_l_store (partition_vecs N (set1 N p) vs s1))
           (c_r_store (partition_vecs N (set1 N p) vs s1) + int N) (c_r_store s1 + int N) (concat vs)"
    using Cons.IH[of s1] Cons.prems room2 by simp
  have fin: "c_l_store (partition_vecs N (set1 N p) vs s1) \<le> c_r_store (partition_vecs N (set1 N p) vs s1) + int N"
    using IH room2 length_filter_split[of p "concat vs"] by (simp add: stored_def)
  show ?case
    unfolding step using stored_trans[OF st1 IH fin] by simp
qed

lemma partition_vecs_cursors [simp]:
  "c_left (partition_vecs N pv vs s) = c_left s" "c_right (partition_vecs N pv vs s) = c_right s"
  by (induction vs arbitrary: s) (simp_all add: split_def Let_def)

lemma partition_vecs_append:
  "partition_vecs N pv (xs @ ys) s = partition_vecs N pv ys (partition_vecs N pv xs s)"
  by (induction xs arbitrary: s) (simp_all add: split_def Let_def)

lemma partition_vecs_minmax:
  fixes s :: "('a::linorder) cursors"
  assumes "\<forall>v\<in>set vs. length v = N" "N \<le> 32" "0 < N"
    "length (c_min_vec s) = N" "length (c_max_vec s) = N"
  shows "length (c_min_vec (partition_vecs N (set1 N p) vs s)) = N \<and>
         length (c_max_vec (partition_vecs N (set1 N p) vs s)) = N \<and>
         Min (set (c_min_vec (partition_vecs N (set1 N p) vs s))) = Min (set (c_min_vec s) \<union> set (concat vs)) \<and>
         Max (set (c_max_vec (partition_vecs N (set1 N p) vs s))) = Max (set (c_max_vec s) \<union> set (concat vs))"
  using assms
proof (induction vs arbitrary: s)
  case Nil
  then show ?case by simp
next
  case (Cons v vs)
  have lenv: "length v = N" using Cons.prems by simp
  let ?pvr = "partition_vec (c_arr s) (c_l_store s) (c_r_store s + int N) v (set1 N p) (c_min_vec s) (c_max_vec s)"
  have eq: "?pvr = (fst ?pvr, vmin v (c_min_vec s), vmax v (c_max_vec s), snd (snd (snd ?pvr)))"
    by (simp add: partition_vec_def Let_def)
  define s1 where "s1 = s\<lparr>c_arr := fst ?pvr, c_min_vec := vmin v (c_min_vec s), c_max_vec := vmax v (c_max_vec s),
              c_l_store := c_l_store s + (int N - snd (snd (snd ?pvr))), c_r_store := c_r_store s - snd (snd (snd ?pvr))\<rparr>"
  have step: "partition_vecs N (set1 N p) (v # vs) s = partition_vecs N (set1 N p) vs s1"
    by (subst partition_vecs.simps, subst eq) (simp add: s1_def)
  have l1: "length (c_min_vec s1) = N" "length (c_max_vec s1) = N"
    using lenv Cons.prems by (simp_all add: s1_def)
  have ne: "v \<noteq> []" "c_min_vec s \<noteq> []" "c_max_vec s \<noteq> []" using lenv Cons.prems by auto
  have m1: "Min (set (c_min_vec s1)) = Min (set (c_min_vec s) \<union> set v)"
    using Min_vmin[of v "c_min_vec s"] lenv Cons.prems ne
    by (simp add: s1_def Min_Un min.commute)
  have m2: "Max (set (c_max_vec s1)) = Max (set (c_max_vec s) \<union> set v)"
    using Max_vmax[of v "c_max_vec s"] lenv Cons.prems ne
    by (simp add: s1_def Max_Un max.commute)
  have ne1: "c_min_vec s1 \<noteq> []" "c_max_vec s1 \<noteq> []" using l1 Cons.prems(3) by auto
  from Cons.IH[of s1] Cons.prems l1
  have IH: "length (c_min_vec (partition_vecs N (set1 N p) vs s1)) = N"
         "length (c_max_vec (partition_vecs N (set1 N p) vs s1)) = N"
         "Min (set (c_min_vec (partition_vecs N (set1 N p) vs s1))) = Min (set (c_min_vec s1) \<union> set (concat vs))"
         "Max (set (c_max_vec (partition_vecs N (set1 N p) vs s1))) = Max (set (c_max_vec s1) \<union> set (concat vs))"
    by simp_all
  have "Min (set (c_min_vec s1) \<union> set (concat vs)) = Min (set (c_min_vec s) \<union> set (concat (v # vs)))"
  proof (cases "concat vs = []")
    case True
    then show ?thesis using m1 by (simp del: set_concat concat_eq_Nil_conv)
  next
    case False
    then have "Min (set (c_min_vec s1) \<union> set (concat vs)) = min (Min (set (c_min_vec s1))) (Min (set (concat vs)))"
      using ne1 by (simp add: Min_Un)
    also have "\<dots> = min (Min (set (c_min_vec s) \<union> set v)) (Min (set (concat vs)))" using m1 by simp
    also have "\<dots> = Min ((set (c_min_vec s) \<union> set v) \<union> set (concat vs))"
      using False ne by (simp add: Min_Un)
    finally show ?thesis by (simp add: Un_assoc)
  qed
  moreover have "Max (set (c_max_vec s1) \<union> set (concat vs)) = Max (set (c_max_vec s) \<union> set (concat (v # vs)))"
  proof (cases "concat vs = []")
    case True
    then show ?thesis using m2 by (simp del: set_concat concat_eq_Nil_conv)
  next
    case False
    then have "Max (set (c_max_vec s1) \<union> set (concat vs)) = max (Max (set (c_max_vec s1))) (Max (set (concat vs)))"
      using ne1 by (simp add: Max_Un)
    also have "\<dots> = max (Max (set (c_max_vec s) \<union> set v)) (Max (set (concat vs)))" using m2 by simp
    also have "\<dots> = Max ((set (c_max_vec s) \<union> set v) \<union> set (concat vs))"
      using False ne by (simp add: Max_Un)
    finally show ?thesis by (simp add: Un_assoc)
  qed
  ultimately show ?case unfolding step using IH by simp
qed

subsection \<open>The loop invariant\<close>

text \<open>
  Storing registers whose lanes are counted in \<open>P\<close> keeps the invariant when the low
  lanes fit before the left load cursor and the high lanes after the right one.
\<close>

lemma inv_upd_cursors [simp]:
  "cursor_inv N p arr0 L0 R0 lft rgt P sm bg (s\<lparr>c_left := x\<rparr>) = cursor_inv N p arr0 L0 R0 lft rgt P sm bg s"
  "cursor_inv N p arr0 L0 R0 lft rgt P sm bg (s\<lparr>c_right := y\<rparr>) = cursor_inv N p arr0 L0 R0 lft rgt P sm bg s"
  by (simp_all add: cursor_inv_def processed_def)

lemma mrange_memI: "a \<le> i \<Longrightarrow> i < b \<Longrightarrow> arr i \<in># mrange arr a b"
  unfolding in_mrange by blast

lemma mset_filter_split:
  "mset (filter (\<lambda>x. x < p) xs) + mset (filter (\<lambda>x. (p::'a::linorder) \<le> x) xs) = mset xs"
  by (induction xs) auto

lemma Min_insert_Un:
  fixes A :: "'a::linorder set"
  assumes "finite A" "finite B" "Min C = Min (insert x A)" "finite C" "C \<noteq> {}"
  shows "Min (C \<union> B) = Min (insert x (A \<union> B))"
proof (cases "B = {}")
  case True
  then show ?thesis using assms by simp
next
  case False
  have "Min (C \<union> B) = min (Min C) (Min B)" using assms False by (simp add: Min_Un)
  also have "\<dots> = min (Min (insert x A)) (Min B)" using assms by simp
  also have "\<dots> = Min (insert x A \<union> B)"
    by (rule Min_Un[symmetric]) (use assms False in auto)
  finally show ?thesis by (simp only: Un_insert_left)
qed

lemma Max_insert_Un:
  fixes A :: "'a::linorder set"
  assumes "finite A" "finite B" "Max C = Max (insert x A)" "finite C" "C \<noteq> {}"
  shows "Max (C \<union> B) = Max (insert x (A \<union> B))"
proof (cases "B = {}")
  case True
  then show ?thesis using assms by simp
next
  case False
  have "Max (C \<union> B) = max (Max C) (Max B)" using assms False by (simp add: Max_Un)
  also have "\<dots> = max (Max (insert x A)) (Max B)" using assms by simp
  also have "\<dots> = Max (insert x A \<union> B)"
    by (rule Max_Un[symmetric]) (use assms False in auto)
  finally show ?thesis by (simp only: Un_insert_left)
qed

lemma inv_store:
  fixes p :: "'a::linorder"
  assumes I: "cursor_inv N p arr0 L0 R0 lft rgt (P + mset (concat vs)) sm bg s"
    and len: "\<forall>v\<in>set vs. length v = N" and N: "0 < N" "N \<le> 32"
    and nl: "int (length (filter (\<lambda>x. x < p) (concat vs))) \<le> lft - c_l_store s"
    and nh: "int (length (filter (\<lambda>x. p \<le> x) (concat vs))) \<le> c_r_store s + int N - rgt"
  shows "cursor_inv N p arr0 L0 R0 lft rgt P sm bg (partition_vecs N (set1 N p) vs s)"
proof -
  let ?xs = "concat vs"
  let ?lo = "filter (\<lambda>x. x < p) ?xs" and ?hi = "filter (\<lambda>x. p \<le> x) ?xs"
  let ?s' = "partition_vecs N (set1 N p) vs s"
  let ?l = "c_l_store s" and ?l' = "c_l_store ?s'"
  let ?R = "c_r_store s + int N" and ?R' = "c_r_store ?s' + int N"
  from I have o: "L0 \<le> ?l" "?l \<le> lft" "lft \<le> rgt" "rgt \<le> ?R" "?R \<le> R0"
    and gap0: "(lft - ?l) + (?R - rgt) = int (size (P + mset ?xs))"
    and low: "\<And>i. L0 \<le> i \<Longrightarrow> i < ?l \<Longrightarrow> c_arr s i < p"
    and high: "\<And>i. ?R \<le> i \<Longrightarrow> i < R0 \<Longrightarrow> p \<le> c_arr s i"
    and same: "\<And>i. (lft \<le> i \<and> i < rgt) \<or> i < L0 \<or> R0 \<le> i \<Longrightarrow> c_arr s i = arr0 i"
    and ms: "processed N L0 R0 s + mrange arr0 lft rgt + (P + mset ?xs) = mrange arr0 L0 R0"
    and lens: "length (c_min_vec s) = N" "length (c_max_vec s) = N"
    and mn: "Min (set (c_min_vec s)) = Min (insert sm (set_mset (processed N L0 R0 s)))"
    and mx: "Max (set (c_max_vec s)) = Max (insert bg (set_mset (processed N L0 R0 s)))"
    unfolding cursor_inv_def by blast+
  have gap: "(lft - ?l) + (?R - rgt) = int (size P) + int (length ?xs)"
    using gap0 by simp
  have split: "int (length ?lo) + int (length ?hi) = int (length ?xs)"
    using length_filter_split[of p ?xs] by linarith
  have room: "c_l_store s + int (length ?xs) \<le> c_r_store s + int N"
    using nl nh split o by linarith
  from partition_vecs_stored[OF len N(2) room, of p]
  have st: "stored p (c_arr s) (c_arr ?s') ?l ?l' ?R' ?R ?xs" .
  then have eql: "?l' = ?l + int (length ?lo)" and eqR: "?R' = ?R - int (length ?hi)"
    and lo: "mrange (c_arr ?s') ?l ?l' = mset ?lo" and hi: "mrange (c_arr ?s') ?R' ?R = mset ?hi"
    and frame: "\<And>i. i < ?l \<or> (?l' \<le> i \<and> i < ?R') \<or> ?R \<le> i \<Longrightarrow> c_arr ?s' i = c_arr s i"
    unfolding stored_def by blast+
  have o': "?l \<le> ?l'" "?l' \<le> lft" "rgt \<le> ?R'" "?R' \<le> ?R"
    using eql eqR nl nh by simp_all
  have gap': "(lft - ?l') + (?R' - rgt) = int (size P)"
    using gap eql eqR split by linarith
  have low': "c_arr ?s' i < p" if "L0 \<le> i" "i < ?l'" for i
  proof (cases "i < ?l")
    case True
    then show ?thesis using frame[of i] low[of i] that by simp
  next
    case False
    then have "c_arr ?s' i \<in># mrange (c_arr ?s') ?l ?l'" using that by (intro mrange_memI) simp_all
    then show ?thesis unfolding lo by simp
  qed
  have high': "p \<le> c_arr ?s' i" if "?R' \<le> i" "i < R0" for i
  proof (cases "?R \<le> i")
    case True
    then show ?thesis using frame[of i] high[of i] that by simp
  next
    case False
    then have "c_arr ?s' i \<in># mrange (c_arr ?s') ?R' ?R" using that by (intro mrange_memI) simp_all
    then show ?thesis unfolding hi by simp
  qed
  have same': "c_arr ?s' i = arr0 i" if "(lft \<le> i \<and> i < rgt) \<or> i < L0 \<or> R0 \<le> i" for i
  proof -
    have "c_arr ?s' i = c_arr s i" using that o o' by (intro frame) linarith
    then show ?thesis using same[OF that] by simp
  qed
  have proc: "processed N L0 R0 ?s' = processed N L0 R0 s + mset ?xs"
  proof -
    have "mrange (c_arr ?s') L0 ?l' = mrange (c_arr ?s') L0 ?l + mrange (c_arr ?s') ?l ?l'"
      using o o' by (intro mrange_split)
    also have "mrange (c_arr ?s') L0 ?l = mrange (c_arr s) L0 ?l"
      by (intro mrange_cong frame) simp
    finally have a: "mrange (c_arr ?s') L0 ?l' = mrange (c_arr s) L0 ?l + mset ?lo"
      using lo by simp
    have "mrange (c_arr ?s') ?R' R0 = mrange (c_arr ?s') ?R' ?R + mrange (c_arr ?s') ?R R0"
      using o o' by (intro mrange_split)
    also have "mrange (c_arr ?s') ?R R0 = mrange (c_arr s) ?R R0"
      by (intro mrange_cong frame) simp
    finally have b: "mrange (c_arr ?s') ?R' R0 = mset ?hi + mrange (c_arr s) ?R R0"
      using hi by simp
    have c: "mset ?lo + mset ?hi = mset ?xs"
      by (rule mset_filter_split)
    have "processed N L0 R0 ?s' = (mrange (c_arr s) L0 ?l + mset ?lo) + (mset ?hi + mrange (c_arr s) ?R R0)"
      unfolding processed_def a b ..
    also have "\<dots> = processed N L0 R0 s + (mset ?lo + mset ?hi)"
      unfolding processed_def by (simp only: ac_simps)
    finally show ?thesis unfolding c .
  qed
  from partition_vecs_minmax[OF len N(2) N(1) lens, of p]
  have lens': "length (c_min_vec ?s') = N" "length (c_max_vec ?s') = N"
    and mn0: "Min (set (c_min_vec ?s')) = Min (set (c_min_vec s) \<union> set ?xs)"
    and mx0: "Max (set (c_max_vec ?s')) = Max (set (c_max_vec s) \<union> set ?xs)"
    by blast+
  have ne: "set (c_min_vec s) \<noteq> {}" "set (c_max_vec s) \<noteq> {}" using lens N by auto
  have mn': "Min (set (c_min_vec ?s')) = Min (insert sm (set_mset (processed N L0 R0 ?s')))"
    unfolding mn0 proc using Min_insert_Un[OF _ _ mn _ ne(1), of "set ?xs"]
    by (simp del: set_concat)
  have mx': "Max (set (c_max_vec ?s')) = Max (insert bg (set_mset (processed N L0 R0 ?s')))"
    unfolding mx0 proc using Max_insert_Un[OF _ _ mx _ ne(2), of "set ?xs"]
    by (simp del: set_concat)
  have ms': "processed N L0 R0 ?s' + mrange arr0 lft rgt + P = mrange arr0 L0 R0"
    using ms unfolding proc by (simp add: ac_simps)
  show ?thesis
    unfolding cursor_inv_def
  proof (intro conjI allI impI)
    show "L0 \<le> ?l'" using o o' by linarith
    show "?l' \<le> lft" by (rule o')
    show "lft \<le> rgt" by (rule o)
    show "rgt \<le> ?R'" by (rule o')
    show "?R' \<le> R0" using o o' by linarith
    show "lft - ?l' + (?R' - rgt) = int (size P)" by (rule gap')
    show "c_arr ?s' i < p" if "L0 \<le> i \<and> i < ?l'" for i using that low' by blast
    show "p \<le> c_arr ?s' i" if "?R' \<le> i \<and> i < R0" for i using that high' by blast
    show "c_arr ?s' i = arr0 i" if "(lft \<le> i \<and> i < rgt) \<or> i < L0 \<or> R0 \<le> i" for i
      using that by (rule same')
    show "processed N L0 R0 ?s' + mrange arr0 lft rgt + P = mrange arr0 L0 R0" by (rule ms')
    show "length (c_min_vec ?s') = N" "length (c_max_vec ?s') = N" by (rule lens')+
    show "Min (set (c_min_vec ?s')) = Min (insert sm (set_mset (processed N L0 R0 ?s')))" by (rule mn')
    show "Max (set (c_max_vec ?s')) = Max (insert bg (set_mset (processed N L0 R0 ?s')))" by (rule mx')
  qed
qed

subsection \<open>The loop body preserves the invariant\<close>

text \<open>
  With two batches in registers the free slots on both sides add up to two batches, so
  the side with the smaller budget has at most one batch free: loading from it leaves
  room for a whole batch on either side.
\<close>

lemma concat_loads:
  "concat (map (\<lambda>ii. loadu N arr (a + int ii * int N)) [0..<K]) = loadu (K * N) arr a"
proof (induction K)
  case 0
  then show ?case by (simp add: loadu_def)
next
  case (Suc K)
  have "loadu (Suc K * N) arr a = loadu (K * N) arr a @ loadu N arr (a + int (K * N))"
    using loadu_add[of "K * N" N arr a] by (simp add: add.commute)
  then show ?case using Suc by simp
qed

lemma mrange_loadu: "mset (loadu n arr a) = mrange arr a (a + int n)"
  by (simp add: mrange_def)

lemma inv_load_left:
  fixes p :: "'a::linorder"
  assumes I: "cursor_inv N p arr0 L0 R0 lft rgt P sm bg s" and n: "lft + int n \<le> rgt"
  shows "cursor_inv N p arr0 L0 R0 (lft + int n) rgt (P + mrange arr0 lft (lft + int n)) sm bg s"
proof -
  have sp: "mrange arr0 lft rgt = mrange arr0 lft (lft + int n) + mrange arr0 (lft + int n) rgt"
    using n by (intro mrange_split) simp_all
  from I have ms: "processed N L0 R0 s + mrange arr0 lft rgt + P = mrange arr0 L0 R0"
    unfolding cursor_inv_def by blast
  have ms': "processed N L0 R0 s + mrange arr0 (lft + int n) rgt + (P + mrange arr0 lft (lft + int n)) = mrange arr0 L0 R0"
    using ms unfolding sp by (simp add: ac_simps)
  show ?thesis
    using I n unfolding cursor_inv_def by (simp add: ms')
qed

lemma inv_load_right:
  fixes p :: "'a::linorder"
  assumes I: "cursor_inv N p arr0 L0 R0 lft rgt P sm bg s" and n: "lft \<le> rgt - int n"
  shows "cursor_inv N p arr0 L0 R0 lft (rgt - int n) (P + mrange arr0 (rgt - int n) rgt) sm bg s"
proof -
  have sp: "mrange arr0 lft rgt = mrange arr0 lft (rgt - int n) + mrange arr0 (rgt - int n) rgt"
    using n by (intro mrange_split) simp_all
  from I have ms: "processed N L0 R0 s + mrange arr0 lft rgt + P = mrange arr0 L0 R0"
    unfolding cursor_inv_def by blast
  have ms': "processed N L0 R0 s + mrange arr0 lft (rgt - int n) + (P + mrange arr0 (rgt - int n) rgt) = mrange arr0 L0 R0"
    using ms unfolding sp by (simp add: ac_simps)
  show ?thesis
    using I n unfolding cursor_inv_def by (simp add: ms')
qed

lemma length_filter_le_int: "int (length (filter P xs)) \<le> int (length xs)"
  by simp

lemma load_batch_inv:
  fixes p :: "'a::linorder"
  assumes I: "cursor_inv N p arr0 L0 R0 (c_left s) (c_right s) P sm bg s"
    and P: "size P = 2 * K * N"
    and step: "c_left s + int K * int N \<le> c_right s"
    and lb: "load_batch N K s = (s', vs)"
  shows "cursor_inv N p arr0 L0 R0 (c_left s') (c_right s') (P + mset (concat vs)) sm bg s'"
    and "\<forall>v\<in>set vs. length v = N" and "length vs = K"
    and "int K * int N \<le> c_left s' - c_l_store s'"
    and "int K * int N \<le> c_r_store s' + int N - c_right s'"
    and "c_right s' - c_left s' = c_right s - c_left s - int K * int N"
proof -
  from I have o: "c_l_store s \<le> c_left s" "c_right s \<le> c_r_store s + int N"
    and gap: "(c_left s - c_l_store s) + (c_r_store s + int N - c_right s) = int (size P)"
    and same: "\<And>i. c_left s \<le> i \<and> i < c_right s \<Longrightarrow> c_arr s i = arr0 i"
    unfolding cursor_inv_def by blast+
  have gap2: "(c_left s - c_l_store s) + (c_r_store s + int N - c_right s) = 2 * int K * int N"
    using gap P by simp
  have "cursor_inv N p arr0 L0 R0 (c_left s') (c_right s') (P + mset (concat vs)) sm bg s'
        \<and> (\<forall>v\<in>set vs. length v = N) \<and> length vs = K
        \<and> int K * int N \<le> c_left s' - c_l_store s'
        \<and> int K * int N \<le> c_r_store s' + int N - c_right s'
        \<and> c_right s' - c_left s' = c_right s - c_left s - int K * int N"
  proof (cases "(c_r_store s + int N) - c_right s < c_left s - c_l_store s")
    case True
    let ?r = "c_right s - int K * int N"
    have s': "s' = s\<lparr>c_right := ?r\<rparr>"
      and vs: "vs = map (\<lambda>ii. loadu N (c_arr s) (?r + int ii * int N)) [0..<K]"
      using True lb by (simp_all add: load_batch_def Let_def)
    have cc: "concat vs = loadu (K * N) arr0 ?r"
      unfolding vs concat_loads using step by (intro loadu_cong same) simp
    have "cursor_inv N p arr0 L0 R0 (c_left s) (c_right s - int (K * N)) (P + mrange arr0 (c_right s - int (K * N)) (c_right s)) sm bg s"
      using step by (intro inv_load_right I) simp
    then have "cursor_inv N p arr0 L0 R0 (c_left s') (c_right s') (P + mset (concat vs)) sm bg s'"
      unfolding cc mrange_loadu s' by simp
    then show ?thesis using True gap2 o unfolding s' by (simp add: vs)
  next
    case False
    let ?l = "c_left s + int K * int N"
    have s': "s' = s\<lparr>c_left := ?l\<rparr>"
      and vs: "vs = map (\<lambda>ii. loadu N (c_arr s) (c_left s + int ii * int N)) [0..<K]"
      using False lb by (simp_all add: load_batch_def Let_def)
    have cc: "concat vs = loadu (K * N) arr0 (c_left s)"
      unfolding vs concat_loads using step by (intro loadu_cong same) simp
    have "cursor_inv N p arr0 L0 R0 (c_left s + int (K * N)) (c_right s) (P + mrange arr0 (c_left s) (c_left s + int (K * N))) sm bg s"
      using step by (intro inv_load_left I) simp
    then have "cursor_inv N p arr0 L0 R0 (c_left s') (c_right s') (P + mset (concat vs)) sm bg s'"
      unfolding cc mrange_loadu s' by simp
    then show ?thesis using False gap2 o unfolding s' by (simp add: vs)
  qed
  then show "cursor_inv N p arr0 L0 R0 (c_left s') (c_right s') (P + mset (concat vs)) sm bg s'"
    and "\<forall>v\<in>set vs. length v = N" and "length vs = K"
    and "int K * int N \<le> c_left s' - c_l_store s'"
    and "int K * int N \<le> c_r_store s' + int N - c_right s'"
    and "c_right s' - c_left s' = c_right s - c_left s - int K * int N"
    by blast+
qed

lemma length_concat_fixed: "\<forall>v\<in>set vs. length v = N \<Longrightarrow> length (concat vs) = length vs * N"
  by (induction vs) simp_all

lemma loop_body_unrolled_inv:
  fixes p :: "'a::linorder"
  assumes I: "cursor_inv N p arr0 L0 R0 (c_left s) (c_right s) P sm bg s"
    and P: "size P = 2 * K * N" and N: "0 < N" "N \<le> 32"
    and step: "c_left s + int K * int N \<le> c_right s"
  shows "cursor_inv N p arr0 L0 R0 (c_left (loop_body_unrolled N K (set1 N p) s))
           (c_right (loop_body_unrolled N K (set1 N p) s)) P sm bg (loop_body_unrolled N K (set1 N p) s)
         \<and> c_right (loop_body_unrolled N K (set1 N p) s) - c_left (loop_body_unrolled N K (set1 N p) s)
             = c_right s - c_left s - int K * int N"
proof -
  obtain s' vs where lb: "load_batch N K s = (s', vs)" by (cases "load_batch N K s") auto
  note li = load_batch_inv[OF I P step lb]
  have body: "loop_body_unrolled N K (set1 N p) s = partition_vecs N (set1 N p) vs s'"
    by (simp add: loop_body_unrolled_def lb)
  have lc: "int (length (concat vs)) = int K * int N"
    using length_concat_fixed[OF li(2)] li(3) by simp
  have nl: "int (length (filter (\<lambda>x. x < p) (concat vs))) \<le> c_left s' - c_l_store s'"
    using length_filter_le_int[of "\<lambda>x. x < p" "concat vs"] lc li(4) by linarith
  have nh: "int (length (filter (\<lambda>x. p \<le> x) (concat vs))) \<le> c_r_store s' + int N - c_right s'"
    using length_filter_le_int[of "\<lambda>x. p \<le> x" "concat vs"] lc li(5) by linarith
  from inv_store[OF li(1) li(2) N nl nh] li(6) show ?thesis
    unfolding body by simp
qed

lemma while_loop_funpow:
  assumes "\<forall>j<n. c_right ((body ^^ j) s) - c_left ((body ^^ j) s) \<noteq> 0"
    and "c_right ((body ^^ n) s) - c_left ((body ^^ n) s) = 0"
  shows "while_loop body s = Some ((body ^^ n) s)"
  using assms
proof (induction n arbitrary: s)
  case 0
  then show ?case by (subst while_loop.simps) simp
next
  case (Suc n)
  have c0: "c_right s - c_left s \<noteq> 0" using Suc.prems(1) by (auto dest: spec[of _ 0])
  have "\<forall>j<n. c_right ((body ^^ j) (body s)) - c_left ((body ^^ j) (body s)) \<noteq> 0"
    using Suc.prems(1) by (auto simp: funpow_swap1 dest: spec[of _ "Suc _"])
  moreover have "c_right ((body ^^ n) (body s)) - c_left ((body ^^ n) (body s)) = 0"
    using Suc.prems(2) by (simp add: funpow_swap1)
  ultimately have "while_loop body (body s) = Some ((body ^^ n) (body s))"
    by (rule Suc.IH)
  then show ?case using c0 by (subst while_loop.simps) (simp add: funpow_swap1)
qed

lemma funpow_inv:
  fixes p :: "'a::linorder"
  assumes I: "cursor_inv N p arr0 L0 R0 (c_left s) (c_right s) P sm bg s"
    and P: "size P = 2 * K * N" and N: "0 < N" "N \<le> 32"
    and m: "c_right s - c_left s = int m * (int K * int N)" and j: "j \<le> m"
  shows "cursor_inv N p arr0 L0 R0 (c_left ((loop_body_unrolled N K (set1 N p) ^^ j) s))
           (c_right ((loop_body_unrolled N K (set1 N p) ^^ j) s)) P sm bg
           ((loop_body_unrolled N K (set1 N p) ^^ j) s)
         \<and> c_right ((loop_body_unrolled N K (set1 N p) ^^ j) s)
             - c_left ((loop_body_unrolled N K (set1 N p) ^^ j) s) = int (m - j) * (int K * int N)"
  using j
proof (induction j)
  case 0
  then show ?case using I m by simp
next
  case (Suc j)
  let ?t = "(loop_body_unrolled N K (set1 N p) ^^ j) s"
  from Suc have IH: "cursor_inv N p arr0 L0 R0 (c_left ?t) (c_right ?t) P sm bg ?t"
    and d: "c_right ?t - c_left ?t = int (m - j) * (int K * int N)" by simp_all
  have "int (m - j) \<ge> 1" using Suc.prems by simp
  then have "int (m - j) * (int K * int N) \<ge> 1 * (int K * int N)"
    by (intro mult_right_mono) simp_all
  then have step: "c_left ?t + int K * int N \<le> c_right ?t" using d by simp
  have e: "int (m - j) * (int K * int N) - int K * int N = int (m - Suc j) * (int K * int N)"
    using Suc.prems by (simp add: algebra_simps of_nat_diff)
  from loop_body_unrolled_inv[OF IH P N step] show ?case
    using d e by simp
qed

subsection \<open>The scalar remainder loop\<close>

lemma std_min_eq: "std_min a b = min a b"
  by (auto simp: std_min_def comparison_func_def min_def)

lemma std_max_eq: "std_max a b = max a b"
  by (auto simp: std_max_def comparison_func_def max_def)

lemma scalar_loop_length:
  "scalar_loop n p (arr, l, r, sm, bg) = (arr', l', r', sm', bg') \<Longrightarrow> r' - l' = r - l - int n"
proof (induction n arbitrary: arr l r sm bg)
  case 0
  then show ?case by simp
next
  case (Suc n)
  show ?case
  proof (cases "comparison_func (arr l) p")
    case True
    with Suc.prems have "scalar_loop n p (arr, l + 1, r, std_min sm (arr l), std_max bg (arr l)) = (arr', l', r', sm', bg')"
      by (simp add: Let_def)
    from Suc.IH[OF this] show ?thesis by simp
  next
    case False
    with Suc.prems have "scalar_loop n p (std_swap arr l (r - 1), l, r - 1, std_min sm (arr l), std_max bg (arr l)) = (arr', l', r', sm', bg')"
      by (simp add: Let_def)
    from Suc.IH[OF this] show ?thesis by simp
  qed
qed

lemma mrange_first: "l < r \<Longrightarrow> mrange arr l r = add_mset (arr l) (mrange arr (l + 1) r)"
  using mrange_split[of l "l + 1" r arr] by (simp add: mrange_single)

lemma mrange_last: "l < r \<Longrightarrow> mrange arr l r = add_mset (arr (r - 1)) (mrange arr l (r - 1))"
  using mrange_split[of l "r - 1" r arr] mrange_single[of arr "r - 1"] by simp

lemma mrange_swap_ends:
  assumes "l < r"
  shows "mrange (std_swap arr l (r - 1)) l r = mrange arr l r"
proof (cases "l = r - 1")
  case True
  then have "std_swap arr l (r - 1) = arr" by (auto simp: std_swap_def)
  then show ?thesis by simp
next
  case False
  with assms have lt: "l + 1 < r" "l < r - 1" by simp_all
  let ?a = "std_swap arr l (r - 1)"
  have mid: "mrange ?a (l + 1) (r - 1) = mrange arr (l + 1) (r - 1)"
    by (rule mrange_cong) (simp add: std_swap_def)
  have "mrange ?a l r = add_mset (?a l) (add_mset (?a (r - 1)) (mrange ?a (l + 1) (r - 1)))"
    using mrange_first[of l r ?a] mrange_last[of "l + 1" r ?a] assms lt by simp
  also have "\<dots> = add_mset (arr (r - 1)) (add_mset (arr l) (mrange arr (l + 1) (r - 1)))"
  proof -
    have "?a l = arr (r - 1)" "?a (r - 1) = arr l" using lt by (simp_all add: std_swap_def)
    then show ?thesis by (simp only: mid)
  qed
  also have "\<dots> = mrange arr l r"
    using mrange_first[of l r arr] mrange_last[of "l + 1" r arr] assms lt by simp
  finally show ?thesis .
qed

lemma Min_insert_min:
  fixes S :: "'a::linorder set"
  assumes "finite S"
  shows "Min (insert (min a x) S) = Min (insert a (insert x S))"
proof (cases "S = {}")
  case True
  then show ?thesis by (simp add: min.commute)
next
  case False
  then show ?thesis using assms by (simp add: min.assoc min.commute min.left_commute)
qed

lemma Max_insert_max:
  fixes S :: "'a::linorder set"
  assumes "finite S"
  shows "Max (insert (max a x) S) = Max (insert a (insert x S))"
proof (cases "S = {}")
  case True
  then show ?thesis by (simp add: max.commute)
next
  case False
  then show ?thesis using assms by (simp add: max.assoc max.commute max.left_commute)
qed

lemma scalar_loop_post:
  fixes p :: "'a::linorder"
  assumes "scalar_loop n p (arr, l, r, sm, bg) = (arr', l', r', sm', bg')" "int n \<le> r - l"
  shows "scalar_post p arr l r sm bg arr' l' r' sm' bg'"
  using assms
proof (induction n arbitrary: arr l r sm bg)
  case 0
  then show ?case by (auto simp add: scalar_post_def)
next
  case (Suc n)
  let ?x = "arr l"
  from Suc.prems have lr: "l < r" by simp
  show ?case
  proof (cases "comparison_func ?x p")
    case True
    then have xp: "?x < p" by (simp add: comparison_func_def)
    from True Suc.prems have rec: "scalar_loop n p (arr, l + 1, r, min sm ?x, max bg ?x) = (arr', l', r', sm', bg')"
      by (simp add: Let_def std_min_eq std_max_eq)
    have "int n \<le> r - (l + 1)" using Suc.prems by simp
    from Suc.IH[OF rec this]
    have o: "l + 1 \<le> l'" "l' \<le> r'" "r' \<le> r"
      and low: "\<And>i. l + 1 \<le> i \<and> i < l' \<Longrightarrow> arr' i < p"
      and high: "\<And>i. r' \<le> i \<and> i < r \<Longrightarrow> p \<le> arr' i"
      and frame: "\<And>i. i < l + 1 \<or> r \<le> i \<Longrightarrow> arr' i = arr i"
      and ms: "mrange arr' (l + 1) r = mrange arr (l + 1) r"
      and mn: "sm' = Min (insert (min sm ?x) (set_mset (mrange arr' (l + 1) l' + mrange arr' r' r)))"
      and mx: "bg' = Max (insert (max bg ?x) (set_mset (mrange arr' (l + 1) l' + mrange arr' r' r)))"
      unfolding scalar_post_def by blast+
    have al: "arr' l = ?x" using frame[of l] by simp
    have low': "arr' i < p" if "l \<le> i \<and> i < l'" for i
      using low[of i] that al xp by (cases "i = l") auto
    have ms': "mrange arr' l r = mrange arr l r"
      using mrange_first[OF lr, of arr'] mrange_first[OF lr, of arr] ms al by simp
    have sp: "mrange arr' l l' = add_mset ?x (mrange arr' (l + 1) l')"
      using mrange_first[of l l' arr'] o al by simp
    have mn': "sm' = Min (insert sm (set_mset (mrange arr' l l' + mrange arr' r' r)))"
      unfolding mn sp by (simp add: Min_insert_min)
    have mx': "bg' = Max (insert bg (set_mset (mrange arr' l l' + mrange arr' r' r)))"
      unfolding mx sp by (simp add: Max_insert_max)
    show ?thesis
      unfolding scalar_post_def
    proof (intro conjI allI impI)
      show "l \<le> l'" using o by simp
      show "l' \<le> r'" "r' \<le> r" by (rule o)+
      show "arr' i < p" if "l \<le> i \<and> i < l'" for i using that by (rule low')
      show "p \<le> arr' i" if "r' \<le> i \<and> i < r" for i using that by (rule high)
      show "arr' i = arr i" if "i < l \<or> r \<le> i" for i using that by (intro frame) auto
      show "mrange arr' l r = mrange arr l r" by (rule ms')
      show "sm' = Min (insert sm (set_mset (mrange arr' l l' + mrange arr' r' r)))" by (rule mn')
      show "bg' = Max (insert bg (set_mset (mrange arr' l l' + mrange arr' r' r)))" by (rule mx')
    qed
  next
    case False
    then have xp: "p \<le> ?x" by (simp add: comparison_func_def)
    let ?a = "std_swap arr l (r - 1)"
    from False Suc.prems have rec: "scalar_loop n p (?a, l, r - 1, min sm ?x, max bg ?x) = (arr', l', r', sm', bg')"
      by (simp add: Let_def std_min_eq std_max_eq)
    have "int n \<le> (r - 1) - l" using Suc.prems by simp
    from Suc.IH[OF rec this]
    have o: "l \<le> l'" "l' \<le> r'" "r' \<le> r - 1"
      and low: "\<And>i. l \<le> i \<and> i < l' \<Longrightarrow> arr' i < p"
      and high: "\<And>i. r' \<le> i \<and> i < r - 1 \<Longrightarrow> p \<le> arr' i"
      and frame: "\<And>i. i < l \<or> r - 1 \<le> i \<Longrightarrow> arr' i = ?a i"
      and ms: "mrange arr' l (r - 1) = mrange ?a l (r - 1)"
      and mn: "sm' = Min (insert (min sm ?x) (set_mset (mrange arr' l l' + mrange arr' r' (r - 1))))"
      and mx: "bg' = Max (insert (max bg ?x) (set_mset (mrange arr' l l' + mrange arr' r' (r - 1))))"
      unfolding scalar_post_def by blast+
    have ar: "arr' (r - 1) = ?x" using frame[of "r - 1"] by (simp add: std_swap_def)
    have high': "p \<le> arr' i" if "r' \<le> i \<and> i < r" for i
      using high[of i] that ar xp by (cases "i = r - 1") auto
    have "mrange arr' l r = add_mset (?a (r - 1)) (mrange ?a l (r - 1))"
      using mrange_last[OF lr, of arr'] ms ar by (simp add: std_swap_def)
    also have "\<dots> = mrange ?a l r" using mrange_last[OF lr, of ?a] by simp
    also have "\<dots> = mrange arr l r" by (rule mrange_swap_ends[OF lr])
    finally have ms': "mrange arr' l r = mrange arr l r" .
    have sp: "mrange arr' r' r = add_mset ?x (mrange arr' r' (r - 1))"
      using mrange_last[of r' r arr'] o ar by simp
    have mn': "sm' = Min (insert sm (set_mset (mrange arr' l l' + mrange arr' r' r)))"
      unfolding mn sp by (simp add: Min_insert_min)
    have mx': "bg' = Max (insert bg (set_mset (mrange arr' l l' + mrange arr' r' r)))"
      unfolding mx sp by (simp add: Max_insert_max)
    have frame': "arr' i = arr i" if "i < l \<or> r \<le> i" for i
    proof -
      have "arr' i = ?a i" using that by (intro frame) auto
      also have "\<dots> = arr i" using that lr by (auto simp: std_swap_def)
      finally show ?thesis .
    qed
    show ?thesis
      unfolding scalar_post_def
    proof (intro conjI allI impI)
      show "l \<le> l'" "l' \<le> r'" by (rule o)+
      show "r' \<le> r" using o by simp
      show "arr' i < p" if "l \<le> i \<and> i < l'" for i using that by (rule low)
      show "p \<le> arr' i" if "r' \<le> i \<and> i < r" for i using that by (rule high')
      show "arr' i = arr i" if "i < l \<or> r \<le> i" for i using that by (rule frame')
      show "mrange arr' l r = mrange arr l r" by (rule ms')
      show "sm' = Min (insert sm (set_mset (mrange arr' l l' + mrange arr' r' r)))" by (rule mn')
      show "bg' = Max (insert bg (set_mset (mrange arr' l l' + mrange arr' r' r)))" by (rule mx')
    qed
  qed
qed

subsection \<open>From the invariant to the postcondition\<close>

lemma inv_final:
  fixes p :: "'a::linorder"
  assumes I: "cursor_inv N p arr0 L0 R0 x x {#} sm bg u" and N: "0 < N"
  shows "partition_post p arr0 L0 R0 sm bg
           (c_arr u, reducemin (c_min_vec u), reducemax (c_max_vec u), c_l_store u)"
    and "c_r_store u + int N = c_l_store u"
proof -
  let ?l = "c_l_store u" and ?R = "c_r_store u + int N"
  from I have o: "L0 \<le> ?l" "?l \<le> x" "x \<le> ?R" "?R \<le> R0"
    and gap: "(x - ?l) + (?R - x) = int (size ({#} :: 'a multiset))"
    and low: "\<And>i. L0 \<le> i \<and> i < ?l \<Longrightarrow> c_arr u i < p"
    and high: "\<And>i. ?R \<le> i \<and> i < R0 \<Longrightarrow> p \<le> c_arr u i"
    and same: "\<And>i. i < L0 \<or> R0 \<le> i \<Longrightarrow> c_arr u i = arr0 i"
    and ms: "processed N L0 R0 u + mrange arr0 x x + {#} = mrange arr0 L0 R0"
    and lens: "length (c_min_vec u) = N" "length (c_max_vec u) = N"
    and mn: "Min (set (c_min_vec u)) = Min (insert sm (set_mset (processed N L0 R0 u)))"
    and mx: "Max (set (c_max_vec u)) = Max (insert bg (set_mset (processed N L0 R0 u)))"
    unfolding cursor_inv_def by blast+
  show eq: "?R = ?l" using gap o by simp
  have pr: "processed N L0 R0 u = mrange arr0 L0 R0" using ms by simp
  have "processed N L0 R0 u = mrange (c_arr u) L0 R0"
    unfolding processed_def eq using o eq by (intro mrange_split[symmetric]) simp_all
  then have ms': "mrange (c_arr u) L0 R0 = mrange arr0 L0 R0" using pr by simp
  have ne: "c_min_vec u \<noteq> []" "c_max_vec u \<noteq> []" using lens N by auto
  show "partition_post p arr0 L0 R0 sm bg
           (c_arr u, reducemin (c_min_vec u), reducemax (c_max_vec u), c_l_store u)"
    unfolding partition_post_def prod.case
  proof (intro conjI allI impI)
    show "L0 \<le> ?l" by (rule o)
    show "?l \<le> R0" using o eq by simp
    show "c_arr u i < p" if "L0 \<le> i \<and> i < ?l" for i using that by (rule low)
    show "p \<le> c_arr u i" if "?l \<le> i \<and> i < R0" for i using that eq by (intro high) simp
    show "c_arr u i = arr0 i" if "i < L0 \<or> R0 \<le> i" for i using that by (rule same)
    show "mrange (c_arr u) L0 R0 = mrange arr0 L0 R0" by (rule ms')
    show "reducemin (c_min_vec u) = Min (insert sm (set_mset (mrange arr0 L0 R0)))"
      using mn ne by (simp add: reducemin_Min pr)
    show "reducemax (c_max_vec u) = Max (insert bg (set_mset (mrange arr0 L0 R0)))"
      using mx ne by (simp add: reducemax_Max pr)
  qed
qed

lemma inv_move:
  fixes p :: "'a::linorder"
  assumes I: "cursor_inv N p arr0 L0 R0 c c P sm bg s" and x: "c_l_store s \<le> x" "x \<le> c_r_store s + int N"
  shows "cursor_inv N p arr0 L0 R0 x x P sm bg s"
  using assms unfolding cursor_inv_def by auto

lemma inv_finish:
  fixes p :: "'a::linorder"
  assumes I: "cursor_inv N p arr0 L0 R0 c c (mset (concat vs)) sm bg s"
    and len: "\<forall>v\<in>set vs. length v = N" and N: "0 < N" "N \<le> 32"
  shows "partition_post p arr0 L0 R0 sm bg
           (let u = partition_vecs N (set1 N p) vs s
            in (c_arr u, reducemin (c_min_vec u), reducemax (c_max_vec u), c_l_store u))"
proof -
  let ?xs = "concat vs"
  let ?x = "c_l_store s + int (length (filter (\<lambda>x. x < p) ?xs))"
  from I have gap: "(c - c_l_store s) + (c_r_store s + int N - c) = int (size (mset ?xs))"
    unfolding cursor_inv_def by blast
  have split: "int (length (filter (\<lambda>x. x < p) ?xs)) + int (length (filter (\<lambda>x. p \<le> x) ?xs)) = int (length ?xs)"
    using length_filter_split[of p ?xs] by linarith
  have I1: "cursor_inv N p arr0 L0 R0 ?x ?x ({#} + mset ?xs) sm bg s"
    using inv_move[OF I, of ?x] gap split by simp
  have "cursor_inv N p arr0 L0 R0 ?x ?x {#} sm bg (partition_vecs N (set1 N p) vs s)"
    using gap split by (intro inv_store[OF I1 len N]) simp_all
  from inv_final(1)[OF this N(1)] show ?thesis by (simp add: Let_def)
qed

lemma vec_left_eq:
  "map (\<lambda>ii. loadu N arr (a + int N * int ii)) [0..<K] = map (\<lambda>ii. loadu N arr (a + int ii * int N)) [0..<K]"
  by (simp add: mult.commute)

lemma vec_right_eq:
  "map (\<lambda>ii. loadu N arr (r - int N * (int K - int ii))) [0..<K]
     = map (\<lambda>ii. loadu N arr ((r - int K * int N) + int ii * int N)) [0..<K]"
  by (simp add: algebra_simps)

lemma Min_replicate: "0 < N \<Longrightarrow> Min (set (replicate N x)) = x"
  by simp

lemma inv_init:
  fixes p :: "'a::linorder"
  assumes N: "0 < N" and m: "R0 - L0 = int m * (int K * int N)" "2 \<le> m"
  shows "cursor_inv N p arr L0 R0 (L0 + int K * int N) (R0 - int K * int N)
           (mset (concat (map (\<lambda>ii. loadu N arr (L0 + int ii * int N)) [0..<K]
                        @ map (\<lambda>ii. loadu N arr ((R0 - int K * int N) + int ii * int N)) [0..<K])))
           sm bg
           \<lparr>c_arr = arr, c_left = L0 + int K * int N, c_right = R0 - int K * int N,
            c_l_store = L0, c_r_store = R0 - int N,
            c_min_vec = set1 N sm, c_max_vec = set1 N bg\<rparr>"
proof -
  let ?kn = "int K * int N"
  have "int m \<ge> 2" using m by simp
  then have "int m * ?kn \<ge> 2 * ?kn" by (intro mult_right_mono) simp_all
  then have ge: "L0 + ?kn \<le> R0 - ?kn" using m by simp
  have kn: "0 \<le> ?kn" by simp
  have P: "mset (concat (map (\<lambda>ii. loadu N arr (L0 + int ii * int N)) [0..<K]
                        @ map (\<lambda>ii. loadu N arr ((R0 - ?kn) + int ii * int N)) [0..<K]))
        = mrange arr L0 (L0 + ?kn) + mrange arr (R0 - ?kn) R0"
    by (simp add: concat_loads mrange_loadu)
  have sp: "mrange arr L0 R0 = mrange arr L0 (L0 + ?kn) + mrange arr (L0 + ?kn) (R0 - ?kn) + mrange arr (R0 - ?kn) R0"
    using mrange_split[of L0 "L0 + ?kn" R0 arr] mrange_split[of "L0 + ?kn" "R0 - ?kn" R0 arr] ge kn
    by (simp add: ac_simps)
  show ?thesis
    unfolding cursor_inv_def P
    using ge kn N by (auto simp add: processed_def sp set1_def ac_simps)
qed

subsection \<open>Composing the phases\<close>

lemma c_rem_nonneg: "0 \<le> a \<Longrightarrow> 0 < b \<Longrightarrow> c_rem a b = a mod b"
  by (cases "a = 0") (simp_all add: c_rem_def smod_int_alt_def)

lemma partition_post_refl: "partition_post p arr l l sm bg (arr, sm, bg, l)"
  by (auto simp add: partition_post_def)

lemma Min_insert_Min:
  fixes S :: "'a::linorder set"
  assumes "finite S" "finite T"
  shows "Min (insert (Min (insert a S)) T) = Min (insert a (S \<union> T))"
proof -
  have "Min (insert a (S \<union> T)) = Min (insert a S \<union> insert (Min (insert a S)) T)"
  proof (rule Min_eqI[symmetric])
    show "finite (insert a S \<union> insert (Min (insert a S)) T)" using assms by simp
    show "Min (insert a (S \<union> T)) \<le> y" if "y \<in> insert a S \<union> insert (Min (insert a S)) T" for y
    proof -
      have "Min (insert a S) \<in> insert a S" using assms by (intro Min_in) simp_all
      then have "y \<in> insert a (S \<union> T)" using that by auto
      then show ?thesis using assms by (intro Min_le) simp_all
    qed
    have "Min (insert a (S \<union> T)) \<in> insert a (S \<union> T)" using assms by (intro Min_in) simp_all
    then show "Min (insert a (S \<union> T)) \<in> insert a S \<union> insert (Min (insert a S)) T" by auto
  qed
  also have "\<dots> = min (Min (insert a S)) (Min (insert (Min (insert a S)) T))"
    using assms by (intro Min_Un) simp_all
  also have "\<dots> = Min (insert (Min (insert a S)) T)"
    using assms by (intro min_absorb2 Min_le) simp_all
  finally show ?thesis by simp
qed

lemma Max_insert_Max:
  fixes S :: "'a::linorder set"
  assumes "finite S" "finite T"
  shows "Max (insert (Max (insert a S)) T) = Max (insert a (S \<union> T))"
proof -
  have "Max (insert a (S \<union> T)) = Max (insert a S \<union> insert (Max (insert a S)) T)"
  proof (rule Max_eqI[symmetric])
    show "finite (insert a S \<union> insert (Max (insert a S)) T)" using assms by simp
    show "y \<le> Max (insert a (S \<union> T))" if "y \<in> insert a S \<union> insert (Max (insert a S)) T" for y
    proof -
      have "Max (insert a S) \<in> insert a S" using assms by (intro Max_in) simp_all
      then have "y \<in> insert a (S \<union> T)" using that by auto
      then show ?thesis using assms by (intro Max_ge) simp_all
    qed
    have "Max (insert a (S \<union> T)) \<in> insert a (S \<union> T)" using assms by (intro Max_in) simp_all
    then show "Max (insert a (S \<union> T)) \<in> insert a S \<union> insert (Max (insert a S)) T" by auto
  qed
  also have "\<dots> = max (Max (insert a S)) (Max (insert (Max (insert a S)) T))"
    using assms by (intro Max_Un) simp_all
  also have "\<dots> = Max (insert (Max (insert a S)) T)"
    using assms by (intro max_absorb2 Max_ge) simp_all
  finally show ?thesis by simp
qed

lemma post_compose:
  fixes p :: "'a::linorder"
  assumes sc: "scalar_post p arr l r sm bg arr1 l1 r1 sm1 bg1"
    and vp: "partition_post p arr1 l1 r1 sm1 bg1 res"
  shows "partition_post p arr l r sm bg res"
proof -
  obtain arr2 sm2 bg2 b where res: "res = (arr2, sm2, bg2, b)" by (cases res) auto
  from sc have o: "l \<le> l1" "l1 \<le> r1" "r1 \<le> r"
    and low: "\<And>i. l \<le> i \<and> i < l1 \<Longrightarrow> arr1 i < p"
    and high: "\<And>i. r1 \<le> i \<and> i < r \<Longrightarrow> p \<le> arr1 i"
    and frame: "\<And>i. i < l \<or> r \<le> i \<Longrightarrow> arr1 i = arr i"
    and ms: "mrange arr1 l r = mrange arr l r"
    and mn: "sm1 = Min (insert sm (set_mset (mrange arr1 l l1 + mrange arr1 r1 r)))"
    and mx: "bg1 = Max (insert bg (set_mset (mrange arr1 l l1 + mrange arr1 r1 r)))"
    unfolding scalar_post_def by blast+
  from vp have o2: "l1 \<le> b" "b \<le> r1"
    and low2: "\<And>i. l1 \<le> i \<and> i < b \<Longrightarrow> arr2 i < p"
    and high2: "\<And>i. b \<le> i \<and> i < r1 \<Longrightarrow> p \<le> arr2 i"
    and frame2: "\<And>i. i < l1 \<or> r1 \<le> i \<Longrightarrow> arr2 i = arr1 i"
    and ms2: "mrange arr2 l1 r1 = mrange arr1 l1 r1"
    and mn2: "sm2 = Min (insert sm1 (set_mset (mrange arr1 l1 r1)))"
    and mx2: "bg2 = Max (insert bg1 (set_mset (mrange arr1 l1 r1)))"
    unfolding partition_post_def res prod.case by blast+
  have sp: "mrange a l r = mrange a l l1 + mrange a l1 r1 + mrange a r1 r" for a :: "'a mem"
    using mrange_split[of l l1 r a] mrange_split[of l1 r1 r a] o by simp
  have "mrange arr2 l l1 = mrange arr1 l l1" "mrange arr2 r1 r = mrange arr1 r1 r"
    by (rule mrange_cong, rule frame2, simp)+
  then have ms': "mrange arr2 l r = mrange arr l r"
    using sp[of arr2] sp[of arr1] ms ms2 by simp
  have un: "set_mset (mrange arr l r) = set_mset (mrange arr1 l l1 + mrange arr1 r1 r) \<union> set_mset (mrange arr1 l1 r1)"
    unfolding ms[symmetric] sp[of arr1] by auto
  show ?thesis
    unfolding partition_post_def res prod.case
  proof (intro conjI allI impI)
    show "l \<le> b" "b \<le> r" using o o2 by simp_all
    show "arr2 i < p" if "l \<le> i \<and> i < b" for i
      using low[of i] low2[of i] frame2[of i] that by (cases "i < l1") auto
    show "p \<le> arr2 i" if "b \<le> i \<and> i < r" for i
      using high[of i] high2[of i] frame2[of i] that by (cases "i < r1") auto
    show "arr2 i = arr i" if "i < l \<or> r \<le> i" for i
      using frame[of i] frame2[of i] that o by auto
    show "mrange arr2 l r = mrange arr l r" by (rule ms')
    show "sm2 = Min (insert sm (set_mset (mrange arr l r)))"
      unfolding mn2 mn un by (rule Min_insert_Min) simp_all
    show "bg2 = Max (insert bg (set_mset (mrange arr l r)))"
      unfolding mx2 mx un by (rule Max_insert_Max) simp_all
  qed
qed

lemma single_vec:
  fixes p :: "'a::linorder"
  assumes N: "0 < N" "N \<le> 32"
    and pv: "partition_vec arr l (l + int N) (loadu N arr l) (set1 N p) (set1 N sm) (set1 N bg)
               = (arr', mn', mx', k)"
  shows "partition_post p arr l (l + int N) sm bg (arr', reducemin mn', reducemax mx', l + (int N - k))"
proof -
  let ?s = "\<lparr>c_arr = arr, c_left = l, c_right = l, c_l_store = l, c_r_store = l,
             c_min_vec = set1 N sm, c_max_vec = set1 N bg\<rparr>"
  have I: "cursor_inv N p arr l (l + int N) l l (mset (concat [loadu N arr l])) sm bg ?s"
    unfolding cursor_inv_def using N by (auto simp add: processed_def set1_def mrange_loadu)
  from inv_finish[OF I _ N] pv show ?thesis
    by (simp add: Let_def)
qed

lemma loop_body_eq: "loop_body N pv s = loop_body_unrolled N 1 pv s"
  by (cases s) (simp add: loop_body_def loop_body_unrolled_def load_batch_def Let_def split_def)

lemma loop_body_eq': "loop_body N pv = loop_body_unrolled N 1 pv"
  by (rule ext) (rule loop_body_eq)

subsection \<open>The vectorised phase\<close>

lemma vec_phase:
  fixes p :: "'a::linorder" and arr :: "'a mem" and sm bg :: 'a
  assumes N: "0 < N" "N \<le> 32" and K: "0 < K"
    and m: "R0 - L0 = int m * (int K * int N)" "2 \<le> m"
  defines "s0 \<equiv> \<lparr>c_arr = arr, c_left = L0 + int K * int N, c_right = R0 - int K * int N,
            c_l_store = L0, c_r_store = R0 - int N,
            c_min_vec = set1 N sm, c_max_vec = set1 N bg\<rparr>"
  defines "P \<equiv> mset (concat (map (\<lambda>ii. loadu N arr (L0 + int ii * int N)) [0..<K]
                        @ map (\<lambda>ii. loadu N arr ((R0 - int K * int N) + int ii * int N)) [0..<K]))"
  defines "body \<equiv> loop_body_unrolled N K (set1 N p)"
  shows "\<forall>j\<le>m - 2. cursor_inv N p arr L0 R0 (c_left ((body ^^ j) s0)) (c_right ((body ^^ j) s0)) P sm bg ((body ^^ j) s0)
            \<and> c_right ((body ^^ j) s0) - c_left ((body ^^ j) s0) = int (m - 2 - j) * (int K * int N)"
    and "while_loop body s0 = Some ((body ^^ (m - 2)) s0)"
proof -
  have I0: "cursor_inv N p arr L0 R0 (c_left s0) (c_right s0) P sm bg s0"
    using inv_init[OF N(1) m, of p arr sm bg] unfolding s0_def P_def by simp
  have sz: "size P = 2 * K * N"
    unfolding P_def by (simp add: concat_loads)
  have d0: "c_right s0 - c_left s0 = int (m - 2) * (int K * int N)"
    using m unfolding s0_def by (simp add: algebra_simps of_nat_diff)
  show all: "\<forall>j\<le>m - 2. cursor_inv N p arr L0 R0 (c_left ((body ^^ j) s0)) (c_right ((body ^^ j) s0)) P sm bg ((body ^^ j) s0)
            \<and> c_right ((body ^^ j) s0) - c_left ((body ^^ j) s0) = int (m - 2 - j) * (int K * int N)"
    unfolding body_def using funpow_inv[OF I0 sz N d0] by blast
  show "while_loop body s0 = Some ((body ^^ (m - 2)) s0)"
  proof (rule while_loop_funpow)
    show "\<forall>j<m - 2. c_right ((body ^^ j) s0) - c_left ((body ^^ j) s0) \<noteq> 0"
    proof (intro allI impI)
      fix j assume j: "j < m - 2"
      then have "c_right ((body ^^ j) s0) - c_left ((body ^^ j) s0) = int (m - 2 - j) * (int K * int N)"
        using all by simp
      moreover have "int (m - 2 - j) * (int K * int N) \<noteq> 0" using j N K by simp
      ultimately show "c_right ((body ^^ j) s0) - c_left ((body ^^ j) s0) \<noteq> 0" by simp
    qed
    show "c_right ((body ^^ (m - 2)) s0) - c_left ((body ^^ (m - 2)) s0) = 0"
      using all by simp
  qed
qed

lemma vec_phase_post:
  fixes p :: "'a::linorder" and arr :: "'a mem" and sm bg :: 'a
  assumes N: "0 < N" "N \<le> 32" and K: "0 < K"
    and m: "R0 - L0 = int m * (int K * int N)" "2 \<le> m"
  defines "s0 \<equiv> \<lparr>c_arr = arr, c_left = L0 + int K * int N, c_right = R0 - int K * int N,
            c_l_store = L0, c_r_store = R0 - int N,
            c_min_vec = set1 N sm, c_max_vec = set1 N bg\<rparr>"
  defines "vs \<equiv> map (\<lambda>ii. loadu N arr (L0 + int ii * int N)) [0..<K]
                        @ map (\<lambda>ii. loadu N arr ((R0 - int K * int N) + int ii * int N)) [0..<K]"
  defines "t \<equiv> (loop_body_unrolled N K (set1 N p) ^^ (m - 2)) s0"
  shows "partition_post p arr L0 R0 sm bg
           (let u = partition_vecs N (set1 N p) vs t
            in (c_arr u, reducemin (c_min_vec u), reducemax (c_max_vec u), c_l_store u))"
    and "c_r_store t + int N - c_l_store t = 2 * int K * int N"
proof -
  from vec_phase(1)[OF N K m, of p arr sm bg]
  have I: "cursor_inv N p arr L0 R0 (c_left t) (c_right t) (mset (concat vs)) sm bg t"
    and e: "c_right t - c_left t = 0"
    unfolding s0_def vs_def t_def by simp_all
  from e have e': "c_right t = c_left t" by simp
  have len: "\<forall>v\<in>set vs. length v = N" unfolding vs_def by auto
  show "partition_post p arr L0 R0 sm bg
           (let u = partition_vecs N (set1 N p) vs t
            in (c_arr u, reducemin (c_min_vec u), reducemax (c_max_vec u), c_l_store u))"
    using I unfolding e' by (rule inv_finish[OF _ len N])
  have "(c_left t - c_l_store t) + (c_r_store t + int N - c_left t) = int (size (mset (concat vs)))"
    using I unfolding e' cursor_inv_def by blast
  moreover have "size (mset (concat vs)) = 2 * K * N"
    unfolding vs_def by (simp add: concat_loads)
  ultimately show "c_r_store t + int N - c_l_store t = 2 * int K * int N" by simp
qed

lemma div_ge_2:
  fixes a b :: int
  assumes "0 < b" "2 * b < a"
  shows "2 \<le> a div b"
proof -
  have "2 = (2 * b) div b" using assms by simp
  also have "\<dots> \<le> a div b" using assms by (intro zdiv_mono1) simp_all
  finally show ?thesis .
qed

lemma unrolled_unfold:
  fixes p :: "'a::linorder"
  assumes big: "\<not> right - left \<le> 2 * int K * int N"
    and sl: "scalar_loop (nat (c_rem (right - left) (int K * int N))) p (arr, left, right, sm, bg)
               = (arr1, l1, r1, sm1, bg1)"
    and ne: "l1 \<noteq> r1"
    and wl: "while_loop (loop_body_unrolled N K (set1 N p))
               \<lparr>c_arr = arr1, c_left = l1 + int K * int N, c_right = r1 - int K * int N,
                c_l_store = l1, c_r_store = r1 - int N,
                c_min_vec = set1 N sm1, c_max_vec = set1 N bg1\<rparr> = Some t"
  shows "partition_avx512_unrolled N K arr left right p sm bg =
           Some (let u = partition_vecs N (set1 N p)
                           (map (\<lambda>ii. loadu N arr1 (l1 + int ii * int N)) [0..<K]
                            @ map (\<lambda>ii. loadu N arr1 ((r1 - int K * int N) + int ii * int N)) [0..<K]) t
                 in (c_arr u, reducemin (c_min_vec u), reducemax (c_max_vec u), c_l_store u))"
  unfolding partition_avx512_unrolled_def
  using big ne
  by (simp add: sl Let_def wl vec_left_eq vec_right_eq[of N arr1 r1 K] partition_vecs_append
      del: map_append)

subsection \<open>Correctness of both partition functions\<close>

lemma vec_phase1:
  fixes p :: "'a::linorder" and arr :: "'a mem" and sm bg :: 'a
  assumes N: "0 < N" "N \<le> 32"
    and m: "R0 - L0 = int m * int N" "2 \<le> m"
  defines "s0 \<equiv> \<lparr>c_arr = arr, c_left = L0 + int N, c_right = R0 - int N,
            c_l_store = L0, c_r_store = R0 - int N,
            c_min_vec = set1 N sm, c_max_vec = set1 N bg\<rparr>"
  defines "t \<equiv> (loop_body N (set1 N p) ^^ (m - 2)) s0"
  shows "while_loop (loop_body N (set1 N p)) s0 = Some t"
    and "partition_post p arr L0 R0 sm bg
           (let u = partition_vecs N (set1 N p) [loadu N arr L0, loadu N arr (R0 - int N)] t
            in (c_arr u, reducemin (c_min_vec u), reducemax (c_max_vec u), c_l_store u))"
    and "c_r_store t + int N - c_l_store t = 2 * int N"
proof -
  have m1: "R0 - L0 = int m * (int 1 * int N)" using m by simp
  show "while_loop (loop_body N (set1 N p)) s0 = Some t"
    using vec_phase(2)[OF N _ m1 m(2), where p = p and arr = arr and sm = sm and bg = bg]
    unfolding s0_def t_def loop_body_eq' by simp
  show "partition_post p arr L0 R0 sm bg
           (let u = partition_vecs N (set1 N p) [loadu N arr L0, loadu N arr (R0 - int N)] t
            in (c_arr u, reducemin (c_min_vec u), reducemax (c_max_vec u), c_l_store u))"
    using vec_phase_post(1)[OF N _ m1 m(2), where p = p and arr = arr and sm = sm and bg = bg]
    unfolding s0_def t_def loop_body_eq' by simp
  show "c_r_store t + int N - c_l_store t = 2 * int N"
    using vec_phase_post(2)[OF N _ m1 m(2), where p = p and arr = arr and sm = sm and bg = bg]
    unfolding s0_def t_def loop_body_eq' by simp
qed

lemma avx512_unfold_vec:
  fixes p :: "'a::linorder"
  assumes sl: "scalar_loop (nat (c_rem (right - left) (int N))) p (arr, left, right, sm, bg)
               = (arr1, l1, r1, sm1, bg1)"
    and ne: "l1 \<noteq> r1" "r1 - l1 \<noteq> int N"
    and wl: "while_loop (loop_body N (set1 N p))
               \<lparr>c_arr = arr1, c_left = l1 + int N, c_right = r1 - int N,
                c_l_store = l1, c_r_store = r1 - int N,
                c_min_vec = set1 N sm1, c_max_vec = set1 N bg1\<rparr> = Some t"
    and gap: "c_r_store t + int N - c_l_store t = 2 * int N"
  shows "partition_avx512 N arr left right p sm bg =
           Some (let u = partition_vecs N (set1 N p) [loadu N arr1 l1, loadu N arr1 (r1 - int N)] t
                 in (c_arr u, reducemin (c_min_vec u), reducemax (c_max_vec u), c_l_store u))"
proof -
  from gap have r: "c_r_store t = c_l_store t + int N" by simp
  show ?thesis
    unfolding partition_avx512_def
    using ne by (simp add: sl Let_def wl split_def r algebra_simps)
qed

lemma partition_avx512_correct:
  fixes p :: "'a::linorder"
  assumes N: "0 < N" "N \<le> 32" and lr: "left \<le> right"
  shows "\<exists>res. partition_avx512 N arr left right p sm bg = Some res \<and>
               partition_post p arr left right sm bg res"
proof -
  let ?d = "(right - left) mod int N"
  have rem: "c_rem (right - left) (int N) = ?d" using N lr by (simp add: c_rem_nonneg)
  obtain arr1 l1 r1 sm1 bg1 where
    sl: "scalar_loop (nat ?d) p (arr, left, right, sm, bg) = (arr1, l1, r1, sm1, bg1)"
    by (cases "scalar_loop (nat ?d) p (arr, left, right, sm, bg)") auto
  have d: "0 \<le> ?d" "?d \<le> right - left"
    using N lr by (simp_all add: zmod_le_nonneg_dividend)
  have sc: "scalar_post p arr left right sm bg arr1 l1 r1 sm1 bg1"
    using d by (intro scalar_loop_post[OF sl]) simp
  have len: "r1 - l1 = int N * ((right - left) div int N)"
    using scalar_loop_length[OF sl] d by (simp add: minus_mod_eq_mult_div)
  consider (a) "l1 = r1" | (b) "l1 \<noteq> r1" "r1 - l1 = int N" | (c) "l1 \<noteq> r1" "r1 - l1 \<noteq> int N"
    by blast
  then show ?thesis
  proof cases
    case a
    have "partition_avx512 N arr left right p sm bg = Some (arr1, sm1, bg1, l1)"
      unfolding partition_avx512_def using a by (simp add: rem sl)
    moreover have "partition_post p arr left right sm bg (arr1, sm1, bg1, l1)"
    proof -
      have "scalar_post p arr left right sm bg arr1 l1 l1 sm1 bg1" using sc a by simp
      then show ?thesis using partition_post_refl by (rule post_compose)
    qed
    ultimately show ?thesis by blast
  next
    case b
    obtain arr' mn' mx' k where pv:
      "partition_vec arr1 l1 (l1 + int N) (loadu N arr1 l1) (set1 N p) (set1 N sm1) (set1 N bg1)
         = (arr', mn', mx', k)"
      by (cases "partition_vec arr1 l1 (l1 + int N) (loadu N arr1 l1) (set1 N p) (set1 N sm1) (set1 N bg1)") auto
    have r1: "r1 = l1 + int N" using b by simp
    have "partition_avx512 N arr left right p sm bg
            = Some (arr', reducemin mn', reducemax mx', l1 + (int N - k))"
      unfolding partition_avx512_def using b by (simp add: rem sl Let_def pv)
    moreover have "partition_post p arr left right sm bg (arr', reducemin mn', reducemax mx', l1 + (int N - k))"
      using post_compose[OF sc[unfolded r1] single_vec[OF N pv]] .
    ultimately show ?thesis by blast
  next
    case c
    define m where "m = nat ((right - left) div int N)"
    have q: "0 \<le> (right - left) div int N" using N lr by (simp add: pos_imp_zdiv_nonneg_iff)
    have lm: "r1 - l1 = int m * int N" using len q by (simp add: m_def)
    have "m \<noteq> 0" using lm c(1) by (cases "m = 0") simp_all
    moreover have "m \<noteq> 1" using lm c(2) by (cases "m = 1") simp_all
    ultimately have m2: "2 \<le> m" by simp
    let ?s0 = "\<lparr>c_arr = arr1, c_left = l1 + int N, c_right = r1 - int N,
                c_l_store = l1, c_r_store = r1 - int N,
                c_min_vec = set1 N sm1, c_max_vec = set1 N bg1\<rparr>"
    let ?t = "(loop_body N (set1 N p) ^^ (m - 2)) ?s0"
    note vp = vec_phase1[OF N lm m2, where p = p and arr = arr1 and sm = sm1 and bg = bg1]
    have "partition_avx512 N arr left right p sm bg =
           Some (let u = partition_vecs N (set1 N p) [loadu N arr1 l1, loadu N arr1 (r1 - int N)] ?t
                 in (c_arr u, reducemin (c_min_vec u), reducemax (c_max_vec u), c_l_store u))"
      using sl c vp(1) vp(3) unfolding rem[symmetric] by (rule avx512_unfold_vec)
    moreover have "partition_post p arr left right sm bg
           (let u = partition_vecs N (set1 N p) [loadu N arr1 l1, loadu N arr1 (r1 - int N)] ?t
                 in (c_arr u, reducemin (c_min_vec u), reducemax (c_max_vec u), c_l_store u))"
      using post_compose[OF sc vp(2)] .
    ultimately show ?thesis by blast
  qed
qed

lemma partition_avx512_unrolled_correct:
  fixes p :: "'a::linorder"
  assumes N: "0 < N" "N \<le> 32" and K: "0 < K" and lr: "left \<le> right"
  shows "\<exists>res. partition_avx512_unrolled N K arr left right p sm bg = Some res \<and>
               partition_post p arr left right sm bg res"
proof (cases "right - left \<le> 2 * int K * int N")
  case True
  then have "partition_avx512_unrolled N K arr left right p sm bg = partition_avx512 N arr left right p sm bg"
    by (simp add: partition_avx512_unrolled_def)
  then show ?thesis using partition_avx512_correct[OF N lr] by simp
next
  case False
  let ?kn = "int K * int N"
  have kn: "0 < ?kn" using N K by simp
  let ?d = "(right - left) mod ?kn"
  have rem: "c_rem (right - left) ?kn = ?d" using kn lr by (simp add: c_rem_nonneg)
  obtain arr1 l1 r1 sm1 bg1 where
    sl: "scalar_loop (nat ?d) p (arr, left, right, sm, bg) = (arr1, l1, r1, sm1, bg1)"
    by (cases "scalar_loop (nat ?d) p (arr, left, right, sm, bg)") auto
  have d: "0 \<le> ?d" "?d \<le> right - left"
    using kn lr by (simp_all add: zmod_le_nonneg_dividend)
  have sc: "scalar_post p arr left right sm bg arr1 l1 r1 sm1 bg1"
    using d by (intro scalar_loop_post[OF sl]) simp
  have len: "r1 - l1 = ?kn * ((right - left) div ?kn)"
    using scalar_loop_length[OF sl] d by (simp add: minus_mod_eq_mult_div)
  define m where "m = nat ((right - left) div ?kn)"
  have q: "2 \<le> (right - left) div ?kn" using False kn by (intro div_ge_2) simp_all
  then have lm: "r1 - l1 = int m * ?kn" and m2: "2 \<le> m" using len by (simp_all add: m_def)
  have "0 < int m * ?kn" using m2 kn by simp
  then have ne: "l1 \<noteq> r1" using lm by auto
  let ?s0 = "\<lparr>c_arr = arr1, c_left = l1 + ?kn, c_right = r1 - ?kn,
                c_l_store = l1, c_r_store = r1 - int N,
                c_min_vec = set1 N sm1, c_max_vec = set1 N bg1\<rparr>"
  let ?t = "(loop_body_unrolled N K (set1 N p) ^^ (m - 2)) ?s0"
  let ?vs = "map (\<lambda>ii. loadu N arr1 (l1 + int ii * int N)) [0..<K]
                            @ map (\<lambda>ii. loadu N arr1 ((r1 - ?kn) + int ii * int N)) [0..<K]"
  have "partition_avx512_unrolled N K arr left right p sm bg =
           Some (let u = partition_vecs N (set1 N p) ?vs ?t
                 in (c_arr u, reducemin (c_min_vec u), reducemax (c_max_vec u), c_l_store u))"
    using False sl ne vec_phase(2)[OF N K lm m2, where p = p and arr = arr1 and sm = sm1 and bg = bg1]
    unfolding rem[symmetric] by (rule unrolled_unfold)
  moreover have "partition_post p arr left right sm bg
           (let u = partition_vecs N (set1 N p) ?vs ?t
                 in (c_arr u, reducemin (c_min_vec u), reducemax (c_max_vec u), c_l_store u))"
    using post_compose[OF sc vec_phase_post(1)[OF N K lm m2, where p = p and arr = arr1 and sm = sm1 and bg = bg1]] .
  ultimately show ?thesis by blast
qed

subsection \<open>Consequences of the contract\<close>

lemma filter_mset_all: "(\<And>x. x \<in># M \<Longrightarrow> P x) \<Longrightarrow> filter_mset P M = M"
  by (induction M) auto

lemma filter_mset_none: "(\<And>x. x \<in># M \<Longrightarrow> \<not> P x) \<Longrightarrow> filter_mset P M = {#}"
  by (induction M) auto

lemma post_sides:
  fixes p :: "'a::linorder"
  assumes "partition_post p arr L R sm bg (arr', s', b', b)"
  shows "mrange arr' L b = filter_mset (\<lambda>x. x < p) (mrange arr L R)"
    and "mrange arr' b R = filter_mset (\<lambda>x. p \<le> x) (mrange arr L R)"
    and "b = L + int (size (filter_mset (\<lambda>x. x < p) (mrange arr L R)))"
proof -
  from assms have o: "L \<le> b" "b \<le> R"
    and low: "\<And>i. L \<le> i \<and> i < b \<Longrightarrow> arr' i < p"
    and high: "\<And>i. b \<le> i \<and> i < R \<Longrightarrow> p \<le> arr' i"
    and ms: "mrange arr' L R = mrange arr L R"
    unfolding partition_post_def prod.case by blast+
  have sp: "mrange arr L R = mrange arr' L b + mrange arr' b R"
    unfolding ms[symmetric] using o by (rule mrange_split)
  have A: "filter_mset (\<lambda>x. x < p) (mrange arr' L b) = mrange arr' L b"
    by (rule filter_mset_all) (use low in \<open>auto simp: in_mrange\<close>)
  have B: "filter_mset (\<lambda>x. x < p) (mrange arr' b R) = {#}"
    by (rule filter_mset_none) (use high in \<open>auto simp: in_mrange not_less\<close>)
  have C: "filter_mset (\<lambda>x. p \<le> x) (mrange arr' L b) = {#}"
    by (rule filter_mset_none) (use low in \<open>auto simp: in_mrange not_le\<close>)
  have D: "filter_mset (\<lambda>x. p \<le> x) (mrange arr' b R) = mrange arr' b R"
    by (rule filter_mset_all) (use high in \<open>auto simp: in_mrange\<close>)
  show 1: "mrange arr' L b = filter_mset (\<lambda>x. x < p) (mrange arr L R)"
    unfolding sp by (simp add: A B)
  show "mrange arr' b R = filter_mset (\<lambda>x. p \<le> x) (mrange arr L R)"
    unfolding sp by (simp add: C D)
  have "size (mrange arr' L b) = nat (b - L)" by simp
  then show "b = L + int (size (filter_mset (\<lambda>x. x < p) (mrange arr L R)))"
    unfolding 1[symmetric] using o by simp
qed

lemma loop_body_shrink:
  "c_right (loop_body N pv s) - c_left (loop_body N pv s) = c_right s - c_left s - int N"
  by (simp add: loop_body_def Let_def split_def)

lemma loop_body_unrolled_shrink:
  "c_right (loop_body_unrolled N K pv s) - c_left (loop_body_unrolled N K pv s)
     = c_right s - c_left s - int K * int N"
  by (simp add: loop_body_unrolled_def load_batch_def Let_def split_def)

lemma funpow_shrink:
  fixes body :: "'a cursors \<Rightarrow> 'a cursors"
  assumes "\<And>s. c_right (body s) - c_left (body s) = c_right s - c_left s - d"
  shows "c_right ((body ^^ j) s) - c_left ((body ^^ j) s) = c_right s - c_left s - int j * d"
proof (induction j)
  case 0
  then show ?case by simp
next
  case (Suc j)
  have "c_right ((body ^^ Suc j) s) - c_left ((body ^^ Suc j) s)
          = c_right ((body ^^ j) s) - c_left ((body ^^ j) s) - d"
    using assms[of "(body ^^ j) s"] by simp
  then show ?case unfolding Suc by (simp add: algebra_simps)
qed

lemma while_loop_exact:
  fixes body :: "'a cursors \<Rightarrow> 'a cursors"
  assumes sh: "\<And>s. c_right (body s) - c_left (body s) = c_right s - c_left s - d"
    and d: "0 < d" and len: "c_right s - c_left s = int n * d"
  shows "while_loop body s = Some ((body ^^ n) s)"
proof (rule while_loop_funpow)
  show "\<forall>j<n. c_right ((body ^^ j) s) - c_left ((body ^^ j) s) \<noteq> 0"
  proof (intro allI impI)
    fix j assume "j < n"
    then have "int j * d < int n * d" using d by simp
    then have "int n * d - int j * d \<noteq> 0" by linarith
    then show "c_right ((body ^^ j) s) - c_left ((body ^^ j) s) \<noteq> 0"
      unfolding funpow_shrink[of body d, OF sh] len .
  qed
  show "c_right ((body ^^ n) s) - c_left ((body ^^ n) s) = 0"
    unfolding funpow_shrink[of body d, OF sh] len by simp
qed

lemma correct_both:
  fixes p :: "'a::linorder"
  assumes "0 < N" "N \<le> 32" "0 < K" "left \<le> right"
  obtains arr1 s1 b1 k1 arr2 s2 b2 k2 where
    "partition_avx512 N arr left right p sm bg = Some (arr1, s1, b1, k1)"
    "partition_post p arr left right sm bg (arr1, s1, b1, k1)"
    "partition_avx512_unrolled N K arr left right p sm bg = Some (arr2, s2, b2, k2)"
    "partition_post p arr left right sm bg (arr2, s2, b2, k2)"
proof -
  from partition_avx512_correct[OF assms(1,2,4), of arr p sm bg]
  obtain r1 where 1: "partition_avx512 N arr left right p sm bg = Some r1"
    "partition_post p arr left right sm bg r1" by blast
  from partition_avx512_unrolled_correct[OF assms, of arr p sm bg]
  obtain r2 where 2: "partition_avx512_unrolled N K arr left right p sm bg = Some r2"
    "partition_post p arr left right sm bg r2" by blast
  show ?thesis using that[of "fst r1" "fst (snd r1)" "fst (snd (snd r1))" "snd (snd (snd r1))"
      "fst r2" "fst (snd r2)" "fst (snd (snd r2))" "snd (snd (snd r2))"] 1 2 by simp
qed

lemma scalar_phase_facts:
  fixes p :: "'a::linorder"
  assumes d: "0 < d" and lr: "left \<le> right"
    and sl: "scalar_loop (nat (c_rem (right - left) d)) p (arr, left, right, sm, bg) = (arr1, l1, r1, sm1, bg1)"
  shows "c_rem (right - left) d = (right - left) mod d"
    and "r1 - l1 = right - left - (right - left) mod d"
    and "l1 \<le> r1" and "d dvd r1 - l1"
proof -
  show rem: "c_rem (right - left) d = (right - left) mod d" using d lr by (simp add: c_rem_nonneg)
  have m: "0 \<le> (right - left) mod d" "(right - left) mod d \<le> right - left"
    using d lr by (simp_all add: zmod_le_nonneg_dividend)
  show len: "r1 - l1 = right - left - (right - left) mod d"
    using scalar_loop_length[OF sl] m unfolding rem by simp
  show "l1 \<le> r1" using len m by simp
  show "d dvd r1 - l1" unfolding len by (simp add: minus_mod_eq_mult_div)
qed

subsection \<open>The states visited by the main loops\<close>

lemma nonunrolled_iterates:
  fixes p :: "'a::linorder" and arr1 :: "'a mem" and sm1 bg1 :: 'a
  assumes N: "0 < N" "N \<le> 32" and lm: "r1 - l1 = int m * int N" and m2: "2 \<le> m" and j: "j \<le> m - 2"
  defines "t \<equiv> (loop_body N (set1 N p) ^^ j)
                  \<lparr>c_arr = arr1, c_left = l1 + int N, c_right = r1 - int N,
                   c_l_store = l1, c_r_store = r1 - int N,
                   c_min_vec = set1 N sm1, c_max_vec = set1 N bg1\<rparr>"
  shows "c_l_store t \<le> c_left t \<and> c_right t \<le> c_r_store t + int N
         \<and> (\<forall>i. c_left t \<le> i \<and> i < c_right t \<longrightarrow> c_arr t i = arr1 i)"
proof -
  have m1: "r1 - l1 = int m * (int 1 * int N)" using lm by simp
  from vec_phase(1)[OF N _ m1 m2, where p = p and arr = arr1 and sm = sm1 and bg = bg1] j
  have "\<exists>P. cursor_inv N p arr1 l1 r1 (c_left t) (c_right t) P sm1 bg1 t"
    unfolding t_def loop_body_eq' by auto
  then show ?thesis unfolding cursor_inv_def by blast
qed

lemma unrolled_stores:
  fixes p :: "'a::linorder" and arr1 :: "'a mem" and sm1 bg1 :: 'a
  assumes N: "0 < N" "N \<le> 32" and K: "0 < K"
    and lm: "r1 - l1 = int m * (int K * int N)" and m2: "2 \<le> m" and j: "j < m - 2"
    and lb: "load_batch N K ((loop_body_unrolled N K (set1 N p) ^^ j)
                  \<lparr>c_arr = arr1, c_left = l1 + int K * int N, c_right = r1 - int K * int N,
                   c_l_store = l1, c_r_store = r1 - int N,
                   c_min_vec = set1 N sm1, c_max_vec = set1 N bg1\<rparr>) = (t', vecs)"
    and ii: "ii \<le> K"
  defines "u \<equiv> partition_vecs N (set1 N p) (take ii vecs) t'"
  shows "c_l_store u \<le> c_left t' \<and> c_right t' \<le> c_r_store u + int N
         \<and> (\<forall>i. c_left t' \<le> i \<and> i < c_right t' \<longrightarrow> c_arr u i = arr1 i)"
proof -
  let ?s0 = "\<lparr>c_arr = arr1, c_left = l1 + int K * int N, c_right = r1 - int K * int N,
                   c_l_store = l1, c_r_store = r1 - int N,
                   c_min_vec = set1 N sm1, c_max_vec = set1 N bg1\<rparr>"
  let ?t = "(loop_body_unrolled N K (set1 N p) ^^ j) ?s0"
  let ?P = "mset (concat (map (\<lambda>ii. loadu N arr1 (l1 + int ii * int N)) [0..<K]
                        @ map (\<lambda>ii. loadu N arr1 ((r1 - int K * int N) + int ii * int N)) [0..<K]))"
  from vec_phase(1)[OF N K lm m2, where p = p and arr = arr1 and sm = sm1 and bg = bg1] j
  have I: "cursor_inv N p arr1 l1 r1 (c_left ?t) (c_right ?t) ?P sm1 bg1 ?t"
    and d: "c_right ?t - c_left ?t = int (m - 2 - j) * (int K * int N)"
    by simp_all
  have sz: "size ?P = 2 * K * N" by (simp add: concat_loads)
  have "int (m - 2 - j) \<ge> 1" using j by simp
  then have "int (m - 2 - j) * (int K * int N) \<ge> 1 * (int K * int N)"
    by (intro mult_right_mono) simp_all
  then have step: "c_left ?t + int K * int N \<le> c_right ?t" using d by simp
  note li = load_batch_inv[OF I sz step lb]
  have len: "\<forall>v\<in>set (take ii vecs). length v = N" using li(2) by (auto dest: in_set_takeD)
  have cc: "mset (concat vecs) = mset (concat (drop ii vecs)) + mset (concat (take ii vecs))"
  proof -
    have "mset (concat vecs) = mset (concat (take ii vecs @ drop ii vecs))" by simp
    also have "\<dots> = mset (concat (drop ii vecs)) + mset (concat (take ii vecs))"
      unfolding concat_append mset_append by (simp only: add.commute)
    finally show ?thesis .
  qed
  have I1: "cursor_inv N p arr1 l1 r1 (c_left t') (c_right t')
              ((?P + mset (concat (drop ii vecs))) + mset (concat (take ii vecs))) sm1 bg1 t'"
    using li(1) unfolding cc by (simp add: ac_simps)
  have lc: "int (length (concat (take ii vecs))) \<le> int K * int N"
  proof -
    have "length (concat (take ii vecs)) = length (take ii vecs) * N"
      by (rule length_concat_fixed[OF len])
    also have "\<dots> \<le> K * N" using li(3) ii by simp
    finally show ?thesis by (metis of_nat_le_iff of_nat_mult)
  qed
  have nl: "int (length (filter (\<lambda>x. x < p) (concat (take ii vecs)))) \<le> c_left t' - c_l_store t'"
    using length_filter_le_int[of "\<lambda>x. x < p" "concat (take ii vecs)"] lc li(4) by linarith
  have nh: "int (length (filter (\<lambda>x. p \<le> x) (concat (take ii vecs)))) \<le> c_r_store t' + int N - c_right t'"
    using length_filter_le_int[of "\<lambda>x. p \<le> x" "concat (take ii vecs)"] lc li(5) by linarith
  from inv_store[OF I1 len N nl nh]
  have "cursor_inv N p arr1 l1 r1 (c_left t') (c_right t') (?P + mset (concat (drop ii vecs))) sm1 bg1 u"
    unfolding u_def .
  then show ?thesis unfolding cursor_inv_def by blast
qed

subsection \<open>Independence from the store outside the range\<close>

text \<open>
  Every load and every store of a call on a valid range falls inside the range, so the
  call commutes with replacing the store outside the range.
\<close>

lemma ovr_loadu: "L \<le> q \<Longrightarrow> q + int n \<le> R \<Longrightarrow> loadu n (ovr L R a z) q = loadu n a q"
  by (rule loadu_cong) (simp add: ovr_def)

lemma ovr_write_seq:
  assumes "L \<le> q" "q + int (length xs) \<le> R"
  shows "write_seq (ovr L R a z) q xs = ovr L R (write_seq a q xs) z"
proof (rule ext)
  fix i
  show "write_seq (ovr L R a z) q xs i = ovr L R (write_seq a q xs) z i"
  proof (cases "q \<le> i \<and> i < q + int (length xs)")
    case True
    then show ?thesis using assms by (simp add: write_seq_inside ovr_def)
  next
    case False
    then have "i < q \<or> q + int (length xs) \<le> i" by auto
    then show ?thesis by (simp add: write_seq_outside ovr_def)
  qed
qed

lemma ovr_partition_vec:
  fixes v pv :: "'a::linorder zmm"
  assumes len: "length v = length pv" "length v \<le> 32"
    and b: "L \<le> l" "l + int (length v) \<le> r" "r \<le> R"
  shows "partition_vec (ovr L R a z) l r v pv mn mx =
           (case partition_vec a l r v pv mn mx of (a', mn', mx', k) \<Rightarrow> (ovr L R a' z, mn', mx', k))"
proof -
  have s: "int (length (lanes_lt v pv)) + int (length (lanes_ge v pv)) = int (length v)"
    using length_lanes[OF len(1)] by linarith
  have 1: "write_seq (ovr L R a z) l (lanes_lt v pv) = ovr L R (write_seq a l (lanes_lt v pv)) z"
    using b s by (intro ovr_write_seq) linarith+
  have 2: "write_seq (ovr L R (write_seq a l (lanes_lt v pv)) z) (r - int (length (lanes_ge v pv))) (lanes_ge v pv)
         = ovr L R (write_seq (write_seq a l (lanes_lt v pv)) (r - int (length (lanes_ge v pv))) (lanes_ge v pv)) z"
    using b s by (intro ovr_write_seq) linarith+
  show ?thesis
    unfolding partition_vec_eq[OF len] prod.case 1 2 ..
qed

lemma ovr_partition_vecs:
  fixes p :: "'a::linorder"
  assumes "\<forall>v\<in>set vs. length v = N" "N \<le> 32"
    and "L \<le> c_l_store s" "c_l_store s + int (length (concat vs)) \<le> c_r_store s + int N"
    and "c_r_store s + int N \<le> R"
  shows "partition_vecs N (set1 N p) vs (s\<lparr>c_arr := ovr L R (c_arr s) z\<rparr>)
           = (partition_vecs N (set1 N p) vs s)\<lparr>c_arr := ovr L R (c_arr (partition_vecs N (set1 N p) vs s)) z\<rparr>"
  using assms
proof (induction vs arbitrary: s)
  case Nil
  then show ?case by simp
next
  case (Cons v vs)
  have lenv: "length v = N" using Cons.prems by simp
  obtain arr' mn' mx' k where pv:
    "partition_vec (c_arr s) (c_l_store s) (c_r_store s + int N) v (set1 N p) (c_min_vec s) (c_max_vec s)
       = (arr', mn', mx', k)"
    by (cases "partition_vec (c_arr s) (c_l_store s) (c_r_store s + int N) v (set1 N p) (c_min_vec s) (c_max_vec s)") auto
  define s1 where "s1 = s\<lparr>c_arr := arr', c_min_vec := mn', c_max_vec := mx',
              c_l_store := c_l_store s + (int N - k), c_r_store := c_r_store s - k\<rparr>"
  have step: "partition_vecs N (set1 N p) (v # vs) s = partition_vecs N (set1 N p) vs s1"
    by (simp add: pv s1_def)
  have room1: "c_l_store s + int N \<le> c_r_store s + int N"
    using Cons.prems(4) lenv by simp
  have pvo: "partition_vec (ovr L R (c_arr s) z) (c_l_store s) (c_r_store s + int N) v (set1 N p) (c_min_vec s) (c_max_vec s)
       = (ovr L R arr' z, mn', mx', k)"
  proof -
    have "partition_vec (ovr L R (c_arr s) z) (c_l_store s) (c_r_store s + int N) v (set1 N p) (c_min_vec s) (c_max_vec s)
       = (case partition_vec (c_arr s) (c_l_store s) (c_r_store s + int N) v (set1 N p) (c_min_vec s) (c_max_vec s)
          of (a', mn', mx', k) \<Rightarrow> (ovr L R a' z, mn', mx', k))"
      by (rule ovr_partition_vec) (use lenv Cons.prems room1 in \<open>simp_all add: set1_def\<close>)
    then show ?thesis unfolding pv by simp
  qed
  have stepo: "partition_vecs N (set1 N p) (v # vs) (s\<lparr>c_arr := ovr L R (c_arr s) z\<rparr>)
        = partition_vecs N (set1 N p) vs (s1\<lparr>c_arr := ovr L R (c_arr s1) z\<rparr>)"
  proof -
    have "partition_vecs N (set1 N p) (v # vs) (s\<lparr>c_arr := ovr L R (c_arr s) z\<rparr>)
        = partition_vecs N (set1 N p) vs
            (s\<lparr>c_arr := ovr L R (c_arr s) z\<rparr>\<lparr>c_arr := ovr L R arr' z, c_min_vec := mn', c_max_vec := mx',
              c_l_store := c_l_store s + (int N - k), c_r_store := c_r_store s - k\<rparr>)"
      by (simp add: pvo)
    also have "s\<lparr>c_arr := ovr L R (c_arr s) z\<rparr>\<lparr>c_arr := ovr L R arr' z, c_min_vec := mn', c_max_vec := mx',
              c_l_store := c_l_store s + (int N - k), c_r_store := c_r_store s - k\<rparr>
          = s1\<lparr>c_arr := ovr L R (c_arr s1) z\<rparr>"
      unfolding s1_def by (cases s) simp
    finally show ?thesis .
  qed
  from stored_step[OF lenv Cons.prems(2) room1 pv]
  have cur: "c_l_store s1 = c_l_store s + int (length (filter (\<lambda>x. x < p) v))"
    "c_r_store s1 = c_r_store s - int (length (filter (\<lambda>x. p \<le> x) v))"
    by (simp_all add: stored_def s1_def)
  have b1: "L \<le> c_l_store s1" "c_l_store s1 + int (length (concat vs)) \<le> c_r_store s1 + int N"
    "c_r_store s1 + int N \<le> R"
    using cur Cons.prems(3,4,5) length_filter_split[of p v] lenv by simp_all
  show ?case
    unfolding step stepo using Cons.IH[of s1] Cons.prems(1,2) b1 by simp
qed

lemma ovr_std_swap:
  "L \<le> i \<Longrightarrow> i < R \<Longrightarrow> L \<le> j \<Longrightarrow> j < R \<Longrightarrow> std_swap (ovr L R a z) i j = ovr L R (std_swap a i j) z"
  by (rule ext) (simp add: std_swap_def ovr_def)

lemma ovr_scalar_loop:
  fixes p :: "'a::linorder"
  assumes "int n \<le> r - l" "L \<le> l" "r \<le> R"
  shows "scalar_loop n p (ovr L R a z, l, r, sm, bg) =
           (case scalar_loop n p (a, l, r, sm, bg) of (a', l', r', sm', bg') \<Rightarrow> (ovr L R a' z, l', r', sm', bg'))"
  using assms
proof (induction n arbitrary: a l r sm bg)
  case 0
  then show ?case by simp
next
  case (Suc n)
  have al: "ovr L R a z l = a l" using Suc.prems by (simp add: ovr_def)
  show ?case
  proof (cases "comparison_func (a l) p")
    case True
    have "int n \<le> r - (l + 1)" "L \<le> l + 1" using Suc.prems by simp_all
    from Suc.IH[OF this(1) this(2) Suc.prems(3)] True show ?thesis
      by (simp add: al Let_def)
  next
    case False
    have sw: "std_swap (ovr L R a z) l (r - 1) = ovr L R (std_swap a l (r - 1)) z"
      using Suc.prems by (intro ovr_std_swap) simp_all
    have "int n \<le> (r - 1) - l" "r - 1 \<le> R" using Suc.prems by simp_all
    from Suc.IH[OF this(1) Suc.prems(2) this(2)] False show ?thesis
      by (simp add: al Let_def sw)
  qed
qed

lemma batch_offset:
  assumes "ii < K"
  shows "int ii * int N + int N \<le> int K * int N" and "0 \<le> int ii * int N" and "0 \<le> int N"
proof -
  from assms have "Suc ii * N \<le> K * N" by (intro mult_le_mono1) simp
  then have "int (Suc ii * N) \<le> int (K * N)" by (simp only: of_nat_le_iff)
  then show "int ii * int N + int N \<le> int K * int N" by (simp add: algebra_simps)
  show "0 \<le> int ii * int N" "0 \<le> int N" by simp_all
qed

lemma ovr_load_batch:
  assumes b: "L \<le> c_left s" "c_left s + int K * int N \<le> c_right s" "c_right s \<le> R"
  shows "load_batch N K (s\<lparr>c_arr := ovr L R (c_arr s) z\<rparr>)
           = (case load_batch N K s of (s', vs) \<Rightarrow> (s'\<lparr>c_arr := ovr L R (c_arr s') z\<rparr>, vs))"
proof -
  have l: "loadu N (ovr L R (c_arr s) z) (c_left s + int ii * int N) = loadu N (c_arr s) (c_left s + int ii * int N)"
    if "ii < K" for ii
    using b batch_offset[OF that, of N] by (intro ovr_loadu) linarith+
  have r: "loadu N (ovr L R (c_arr s) z) (c_right s - int K * int N + int ii * int N)
             = loadu N (c_arr s) (c_right s - int K * int N + int ii * int N)"
    if "ii < K" for ii
    using b batch_offset[OF that, of N] by (intro ovr_loadu) linarith+
  have ml: "map (\<lambda>ii. loadu N (ovr L R (c_arr s) z) (c_left s + int ii * int N)) [0..<K]
          = map (\<lambda>ii. loadu N (c_arr s) (c_left s + int ii * int N)) [0..<K]"
    by (rule map_cong) (simp_all add: l)
  have mr: "map (\<lambda>ii. loadu N (ovr L R (c_arr s) z) (c_right s - int K * int N + int ii * int N)) [0..<K]
          = map (\<lambda>ii. loadu N (c_arr s) (c_right s - int K * int N + int ii * int N)) [0..<K]"
    by (rule map_cong) (simp_all add: r)
  show ?thesis
    by (cases s) (use ml mr in \<open>simp add: load_batch_def Let_def\<close>)
qed

lemma ovr_loop_body_unrolled:
  fixes p :: "'a::linorder"
  assumes I: "cursor_inv N p arr0 L0 R0 (c_left s) (c_right s) P sm bg s"
    and P: "size P = 2 * K * N" and N: "0 < N" "N \<le> 32"
    and step: "c_left s + int K * int N \<le> c_right s"
    and LR: "L \<le> L0" "R0 \<le> R"
  shows "loop_body_unrolled N K (set1 N p) (s\<lparr>c_arr := ovr L R (c_arr s) z\<rparr>)
           = (loop_body_unrolled N K (set1 N p) s)
               \<lparr>c_arr := ovr L R (c_arr (loop_body_unrolled N K (set1 N p) s)) z\<rparr>"
proof -
  obtain s' vs where lb: "load_batch N K s = (s', vs)" by (cases "load_batch N K s") auto
  note li = load_batch_inv[OF I P step lb]
  from I have o: "L0 \<le> c_l_store s" "c_l_store s \<le> c_left s" "c_right s \<le> c_r_store s + int N"
    "c_r_store s + int N \<le> R0"
    unfolding cursor_inv_def by blast+
  from li(1) have o': "L0 \<le> c_l_store s'" "c_left s' \<le> c_right s'" "c_right s' \<le> c_r_store s' + int N"
    "c_r_store s' + int N \<le> R0"
    unfolding cursor_inv_def by blast+
  have lbo: "load_batch N K (s\<lparr>c_arr := ovr L R (c_arr s) z\<rparr>) = (s'\<lparr>c_arr := ovr L R (c_arr s') z\<rparr>, vs)"
    using ovr_load_batch[of L s K N R z] o step LR by (simp add: lb)
  have lc: "int (length (concat vs)) = int K * int N"
    using length_concat_fixed[OF li(2)] li(3) by simp
  have "partition_vecs N (set1 N p) vs (s'\<lparr>c_arr := ovr L R (c_arr s') z\<rparr>)
           = (partition_vecs N (set1 N p) vs s')\<lparr>c_arr := ovr L R (c_arr (partition_vecs N (set1 N p) vs s')) z\<rparr>"
    using li(2) N(2) o' li(4) lc LR by (intro ovr_partition_vecs) linarith+
  then show ?thesis
    by (simp add: loop_body_unrolled_def lb lbo)
qed

lemma ovr_funpow:
  fixes p :: "'a::linorder" and arr :: "'a mem" and sm bg :: 'a
  assumes N: "0 < N" "N \<le> 32" and K: "0 < K"
    and m: "R0 - L0 = int m * (int K * int N)" "2 \<le> m"
    and LR: "L \<le> L0" "R0 \<le> R" and j: "j \<le> m - 2"
  defines "s0 \<equiv> \<lparr>c_arr = arr, c_left = L0 + int K * int N, c_right = R0 - int K * int N,
            c_l_store = L0, c_r_store = R0 - int N,
            c_min_vec = set1 N sm, c_max_vec = set1 N bg\<rparr>"
  defines "body \<equiv> loop_body_unrolled N K (set1 N p)"
  shows "(body ^^ j) (s0\<lparr>c_arr := ovr L R arr z\<rparr>)
           = ((body ^^ j) s0)\<lparr>c_arr := ovr L R (c_arr ((body ^^ j) s0)) z\<rparr>"
  using j
proof (induction j)
  case 0
  then show ?case by (simp add: s0_def)
next
  case (Suc j)
  let ?P = "mset (concat (map (\<lambda>ii. loadu N arr (L0 + int ii * int N)) [0..<K]
                        @ map (\<lambda>ii. loadu N arr ((R0 - int K * int N) + int ii * int N)) [0..<K]))"
  let ?t = "(body ^^ j) s0"
  from vec_phase(1)[OF N K m, where p = p and arr = arr and sm = sm and bg = bg] Suc.prems
  have I: "cursor_inv N p arr L0 R0 (c_left ?t) (c_right ?t) ?P sm bg ?t"
    and d: "c_right ?t - c_left ?t = int (m - 2 - j) * (int K * int N)"
    unfolding s0_def body_def by simp_all
  have sz: "size ?P = 2 * K * N" by (simp add: concat_loads)
  have "int (m - 2 - j) \<ge> 1" using Suc.prems by simp
  then have "int (m - 2 - j) * (int K * int N) \<ge> 1 * (int K * int N)"
    by (intro mult_right_mono) simp_all
  then have step: "c_left ?t + int K * int N \<le> c_right ?t" using d by simp
  have "(body ^^ Suc j) (s0\<lparr>c_arr := ovr L R arr z\<rparr>) = body (?t\<lparr>c_arr := ovr L R (c_arr ?t) z\<rparr>)"
    using Suc by simp
  also have "\<dots> = (body ?t)\<lparr>c_arr := ovr L R (c_arr (body ?t)) z\<rparr>"
    unfolding body_def using ovr_loop_body_unrolled[OF I[unfolded body_def] sz N step[unfolded body_def] LR] .
  finally show ?case by simp
qed

lemma ovr_vec_phase:
  fixes p :: "'a::linorder" and arr :: "'a mem" and sm bg :: 'a
  assumes N: "0 < N" "N \<le> 32" and K: "0 < K"
    and m: "R0 - L0 = int m * (int K * int N)" "2 \<le> m"
    and LR: "L \<le> L0" "R0 \<le> R"
  defines "s0 \<equiv> \<lparr>c_arr = arr, c_left = L0 + int K * int N, c_right = R0 - int K * int N,
            c_l_store = L0, c_r_store = R0 - int N,
            c_min_vec = set1 N sm, c_max_vec = set1 N bg\<rparr>"
  defines "vs \<equiv> map (\<lambda>ii. loadu N arr (L0 + int ii * int N)) [0..<K]
                        @ map (\<lambda>ii. loadu N arr ((R0 - int K * int N) + int ii * int N)) [0..<K]"
  defines "body \<equiv> loop_body_unrolled N K (set1 N p)"
  defines "t \<equiv> (body ^^ (m - 2)) s0"
  shows "while_loop body \<lparr>c_arr = ovr L R arr z, c_left = L0 + int K * int N, c_right = R0 - int K * int N,
            c_l_store = L0, c_r_store = R0 - int N,
            c_min_vec = set1 N sm, c_max_vec = set1 N bg\<rparr> = Some (t\<lparr>c_arr := ovr L R (c_arr t) z\<rparr>)"
    and "partition_vecs N (set1 N p) vs (t\<lparr>c_arr := ovr L R (c_arr t) z\<rparr>)
           = (partition_vecs N (set1 N p) vs t)\<lparr>c_arr := ovr L R (c_arr (partition_vecs N (set1 N p) vs t)) z\<rparr>"
    and "map (\<lambda>ii. loadu N (ovr L R arr z) (L0 + int ii * int N)) [0..<K]
                        @ map (\<lambda>ii. loadu N (ovr L R arr z) ((R0 - int K * int N) + int ii * int N)) [0..<K] = vs"
proof -
  let ?kn = "int K * int N"
  let ?s0' = "\<lparr>c_arr = ovr L R arr z, c_left = L0 + ?kn, c_right = R0 - ?kn,
            c_l_store = L0, c_r_store = R0 - int N,
            c_min_vec = set1 N sm, c_max_vec = set1 N bg\<rparr>"
  have kn: "0 < ?kn" using N K by simp
  have e: "?s0' = s0\<lparr>c_arr := ovr L R arr z\<rparr>" by (simp add: s0_def)
  have d0: "c_right ?s0' - c_left ?s0' = int (m - 2) * ?kn"
    using m by (simp add: algebra_simps of_nat_diff)
  have "while_loop body ?s0' = Some ((body ^^ (m - 2)) ?s0')"
    unfolding body_def by (rule while_loop_exact[OF loop_body_unrolled_shrink kn d0])
  also have "(body ^^ (m - 2)) ?s0' = t\<lparr>c_arr := ovr L R (c_arr t) z\<rparr>"
    unfolding e t_def s0_def body_def by (rule ovr_funpow[OF N K m LR]) simp
  finally show "while_loop body ?s0' = Some (t\<lparr>c_arr := ovr L R (c_arr t) z\<rparr>)" .
  from vec_phase(1)[OF N K m, where p = p and arr = arr and sm = sm and bg = bg]
  have I: "cursor_inv N p arr L0 R0 (c_left t) (c_right t) (mset (concat vs)) sm bg t"
    unfolding s0_def vs_def t_def body_def by simp
  then have o: "L0 \<le> c_l_store t" "c_r_store t + int N \<le> R0"
    unfolding cursor_inv_def by blast+
  have gap: "c_r_store t + int N - c_l_store t = 2 * int K * int N"
    using vec_phase_post(2)[OF N K m, where p = p and arr = arr and sm = sm and bg = bg]
    unfolding t_def s0_def body_def .
  have len: "\<forall>v\<in>set vs. length v = N" unfolding vs_def by auto
  have lc: "int (length (concat vs)) = 2 * int K * int N"
    unfolding vs_def by (simp add: concat_loads)
  show "partition_vecs N (set1 N p) vs (t\<lparr>c_arr := ovr L R (c_arr t) z\<rparr>)
           = (partition_vecs N (set1 N p) vs t)\<lparr>c_arr := ovr L R (c_arr (partition_vecs N (set1 N p) vs t)) z\<rparr>"
    using len N(2) o gap lc LR by (intro ovr_partition_vecs) linarith+
  have "int m \<ge> 2" using m by simp
  then have "int m * ?kn \<ge> 2 * ?kn" by (intro mult_right_mono) simp_all
  then have ge: "L0 + ?kn \<le> R0 - ?kn" using m by simp
  have l: "loadu N (ovr L R arr z) (L0 + int ii * int N) = loadu N arr (L0 + int ii * int N)"
    if "ii < K" for ii
    using LR ge batch_offset[OF that, of N] by (intro ovr_loadu) linarith+
  have r: "loadu N (ovr L R arr z) (R0 - ?kn + int ii * int N) = loadu N arr (R0 - ?kn + int ii * int N)"
    if "ii < K" for ii
    using LR ge batch_offset[OF that, of N] kn by (intro ovr_loadu) linarith+
  have "map (\<lambda>ii. loadu N (ovr L R arr z) (L0 + int ii * int N)) [0..<K]
          = map (\<lambda>ii. loadu N arr (L0 + int ii * int N)) [0..<K]"
    by (rule map_cong) (simp_all add: l)
  moreover have "map (\<lambda>ii. loadu N (ovr L R arr z) (R0 - ?kn + int ii * int N)) [0..<K]
          = map (\<lambda>ii. loadu N arr (R0 - ?kn + int ii * int N)) [0..<K]"
    by (rule map_cong) (simp_all add: r)
  ultimately show "map (\<lambda>ii. loadu N (ovr L R arr z) (L0 + int ii * int N)) [0..<K]
                        @ map (\<lambda>ii. loadu N (ovr L R arr z) ((R0 - int K * int N) + int ii * int N)) [0..<K] = vs"
    unfolding vs_def by simp
qed

lemma ovr_vec_phase1:
  fixes p :: "'a::linorder" and arr :: "'a mem" and sm bg :: 'a
  assumes N: "0 < N" "N \<le> 32"
    and m: "R0 - L0 = int m * int N" "2 \<le> m"
    and LR: "L \<le> L0" "R0 \<le> R"
  defines "s0 \<equiv> \<lparr>c_arr = arr, c_left = L0 + int N, c_right = R0 - int N,
            c_l_store = L0, c_r_store = R0 - int N,
            c_min_vec = set1 N sm, c_max_vec = set1 N bg\<rparr>"
  defines "t \<equiv> (loop_body N (set1 N p) ^^ (m - 2)) s0"
  shows "while_loop (loop_body N (set1 N p))
           \<lparr>c_arr = ovr L R arr z, c_left = L0 + int N, c_right = R0 - int N,
            c_l_store = L0, c_r_store = R0 - int N,
            c_min_vec = set1 N sm, c_max_vec = set1 N bg\<rparr> = Some (t\<lparr>c_arr := ovr L R (c_arr t) z\<rparr>)"
    and "partition_vecs N (set1 N p) [loadu N (ovr L R arr z) L0, loadu N (ovr L R arr z) (R0 - int N)]
             (t\<lparr>c_arr := ovr L R (c_arr t) z\<rparr>)
           = (partition_vecs N (set1 N p) [loadu N arr L0, loadu N arr (R0 - int N)] t)
               \<lparr>c_arr := ovr L R (c_arr (partition_vecs N (set1 N p) [loadu N arr L0, loadu N arr (R0 - int N)] t)) z\<rparr>"
proof -
  have m1: "R0 - L0 = int m * (int 1 * int N)" using m by simp
  show "while_loop (loop_body N (set1 N p))
           \<lparr>c_arr = ovr L R arr z, c_left = L0 + int N, c_right = R0 - int N,
            c_l_store = L0, c_r_store = R0 - int N,
            c_min_vec = set1 N sm, c_max_vec = set1 N bg\<rparr> = Some (t\<lparr>c_arr := ovr L R (c_arr t) z\<rparr>)"
    using ovr_vec_phase(1)[OF N _ m1 m(2) LR, where p = p and arr = arr and sm = sm and bg = bg and z = z]
    unfolding s0_def t_def loop_body_eq' by simp
  have v: "[loadu N (ovr L R arr z) L0, loadu N (ovr L R arr z) (R0 - int N)]
             = [loadu N arr L0, loadu N arr (R0 - int N)]"
    using ovr_vec_phase(3)[OF N _ m1 m(2) LR, where arr = arr and z = z] by simp
  show "partition_vecs N (set1 N p) [loadu N (ovr L R arr z) L0, loadu N (ovr L R arr z) (R0 - int N)]
             (t\<lparr>c_arr := ovr L R (c_arr t) z\<rparr>)
           = (partition_vecs N (set1 N p) [loadu N arr L0, loadu N arr (R0 - int N)] t)
               \<lparr>c_arr := ovr L R (c_arr (partition_vecs N (set1 N p) [loadu N arr L0, loadu N arr (R0 - int N)] t)) z\<rparr>"
    unfolding v
    using ovr_vec_phase(2)[OF N _ m1 m(2) LR, where p = p and arr = arr and sm = sm and bg = bg and z = z]
    unfolding s0_def t_def loop_body_eq' by simp
qed

lemma partition_avx512_frame:
  fixes p :: "'a::linorder"
  assumes N: "0 < N" "N \<le> 32" and lr: "left \<le> right"
  shows "partition_avx512 N (ovr left right arr z) left right p sm bg
           = map_option (\<lambda>(a', s', b', k). (ovr left right a' z, s', b', k))
               (partition_avx512 N arr left right p sm bg)"
proof -
  let ?d = "(right - left) mod int N"
  let ?o = "ovr left right"
  have rem: "c_rem (right - left) (int N) = ?d" using N lr by (simp add: c_rem_nonneg)
  obtain arr1 l1 r1 sm1 bg1 where
    sl: "scalar_loop (nat ?d) p (arr, left, right, sm, bg) = (arr1, l1, r1, sm1, bg1)"
    by (cases "scalar_loop (nat ?d) p (arr, left, right, sm, bg)") auto
  have d: "0 \<le> ?d" "?d \<le> right - left"
    using N lr by (simp_all add: zmod_le_nonneg_dividend)
  have slo: "scalar_loop (nat ?d) p (?o arr z, left, right, sm, bg) = (?o arr1 z, l1, r1, sm1, bg1)"
    using ovr_scalar_loop[of "nat ?d" right left left right p arr z sm bg] d by (simp add: sl)
  have sc: "scalar_post p arr left right sm bg arr1 l1 r1 sm1 bg1"
    using d by (intro scalar_loop_post[OF sl]) simp
  then have o: "left \<le> l1" "l1 \<le> r1" "r1 \<le> right" unfolding scalar_post_def by blast+
  have len: "r1 - l1 = int N * ((right - left) div int N)"
    using scalar_loop_length[OF sl] d by (simp add: minus_mod_eq_mult_div)
  consider (a) "l1 = r1" | (b) "l1 \<noteq> r1" "r1 - l1 = int N" | (c) "l1 \<noteq> r1" "r1 - l1 \<noteq> int N"
    by blast
  then show ?thesis
  proof cases
    case a
    have "partition_avx512 N arr left right p sm bg = Some (arr1, sm1, bg1, l1)"
      unfolding partition_avx512_def using a by (simp add: rem sl)
    moreover have "partition_avx512 N (?o arr z) left right p sm bg = Some (?o arr1 z, sm1, bg1, l1)"
      unfolding partition_avx512_def using a by (simp add: rem slo)
    ultimately show ?thesis by simp
  next
    case b
    obtain arr' mn' mx' k where pv:
      "partition_vec arr1 l1 (l1 + int N) (loadu N arr1 l1) (set1 N p) (set1 N sm1) (set1 N bg1)
         = (arr', mn', mx', k)"
      by (cases "partition_vec arr1 l1 (l1 + int N) (loadu N arr1 l1) (set1 N p) (set1 N sm1) (set1 N bg1)") auto
    have r1: "r1 = l1 + int N" using b by simp
    have lo: "loadu N (?o arr1 z) l1 = loadu N arr1 l1"
      using o r1 by (intro ovr_loadu) simp_all
    have "partition_vec (?o arr1 z) l1 (l1 + int N) (loadu N arr1 l1) (set1 N p) (set1 N sm1) (set1 N bg1)
         = (case partition_vec arr1 l1 (l1 + int N) (loadu N arr1 l1) (set1 N p) (set1 N sm1) (set1 N bg1)
            of (a', mn', mx', k) \<Rightarrow> (?o a' z, mn', mx', k))"
      by (rule ovr_partition_vec) (use o r1 N in \<open>simp_all add: set1_def\<close>)
    then have pvo: "partition_vec (?o arr1 z) l1 (l1 + int N) (loadu N (?o arr1 z) l1) (set1 N p) (set1 N sm1) (set1 N bg1)
         = (?o arr' z, mn', mx', k)"
      unfolding lo pv by simp
    have "partition_avx512 N arr left right p sm bg
            = Some (arr', reducemin mn', reducemax mx', l1 + (int N - k))"
      unfolding partition_avx512_def using b by (simp add: rem sl Let_def pv)
    moreover have "partition_avx512 N (?o arr z) left right p sm bg
            = Some (?o arr' z, reducemin mn', reducemax mx', l1 + (int N - k))"
      unfolding partition_avx512_def using b by (simp add: rem slo Let_def pvo)
    ultimately show ?thesis by simp
  next
    case c
    define m where "m = nat ((right - left) div int N)"
    have q: "0 \<le> (right - left) div int N" using N lr by (simp add: pos_imp_zdiv_nonneg_iff)
    have lm: "r1 - l1 = int m * int N" using len q by (simp add: m_def)
    have "m \<noteq> 0" using lm c(1) by (cases "m = 0") simp_all
    moreover have "m \<noteq> 1" using lm c(2) by (cases "m = 1") simp_all
    ultimately have m2: "2 \<le> m" by simp
    let ?s0 = "\<lparr>c_arr = arr1, c_left = l1 + int N, c_right = r1 - int N,
                c_l_store = l1, c_r_store = r1 - int N,
                c_min_vec = set1 N sm1, c_max_vec = set1 N bg1\<rparr>"
    let ?t = "(loop_body N (set1 N p) ^^ (m - 2)) ?s0"
    let ?u = "partition_vecs N (set1 N p) [loadu N arr1 l1, loadu N arr1 (r1 - int N)] ?t"
    note vp = vec_phase1[OF N lm m2, where p = p and arr = arr1 and sm = sm1 and bg = bg1]
    note ov = ovr_vec_phase1[OF N lm m2 o(1) o(3), where p = p and arr = arr1 and sm = sm1 and bg = bg1 and z = z]
    have 1: "partition_avx512 N arr left right p sm bg =
           Some (let u = ?u in (c_arr u, reducemin (c_min_vec u), reducemax (c_max_vec u), c_l_store u))"
      using sl c vp(1) vp(3) unfolding rem[symmetric] by (rule avx512_unfold_vec)
    have gap: "c_r_store (?t\<lparr>c_arr := ?o (c_arr ?t) z\<rparr>) + int N - c_l_store (?t\<lparr>c_arr := ?o (c_arr ?t) z\<rparr>) = 2 * int N"
      using vp(3) by simp
    have "partition_avx512 N (?o arr z) left right p sm bg =
           Some (let u = partition_vecs N (set1 N p) [loadu N (?o arr1 z) l1, loadu N (?o arr1 z) (r1 - int N)]
                           (?t\<lparr>c_arr := ?o (c_arr ?t) z\<rparr>)
                 in (c_arr u, reducemin (c_min_vec u), reducemax (c_max_vec u), c_l_store u))"
      using slo c ov(1) gap unfolding rem[symmetric] by (rule avx512_unfold_vec)
    then have 2: "partition_avx512 N (?o arr z) left right p sm bg =
           Some (let u = ?u in (?o (c_arr u) z, reducemin (c_min_vec u), reducemax (c_max_vec u), c_l_store u))"
      unfolding ov(2) by (simp add: Let_def)
    show ?thesis unfolding 1 2 by (simp add: Let_def)
  qed
qed

lemma partition_avx512_unrolled_frame:
  fixes p :: "'a::linorder"
  assumes N: "0 < N" "N \<le> 32" and K: "0 < K" and lr: "left \<le> right"
  shows "partition_avx512_unrolled N K (ovr left right arr z) left right p sm bg
           = map_option (\<lambda>(a', s', b', k). (ovr left right a' z, s', b', k))
               (partition_avx512_unrolled N K arr left right p sm bg)"
proof (cases "right - left \<le> 2 * int K * int N")
  case True
  then show ?thesis
    using partition_avx512_frame[OF N lr, of arr z p sm bg]
    by (simp add: partition_avx512_unrolled_def)
next
  case False
  let ?kn = "int K * int N"
  let ?o = "ovr left right"
  have kn: "0 < ?kn" using N K by simp
  let ?d = "(right - left) mod ?kn"
  have rem: "c_rem (right - left) ?kn = ?d" using kn lr by (simp add: c_rem_nonneg)
  obtain arr1 l1 r1 sm1 bg1 where
    sl: "scalar_loop (nat ?d) p (arr, left, right, sm, bg) = (arr1, l1, r1, sm1, bg1)"
    by (cases "scalar_loop (nat ?d) p (arr, left, right, sm, bg)") auto
  have d: "0 \<le> ?d" "?d \<le> right - left"
    using kn lr by (simp_all add: zmod_le_nonneg_dividend)
  have slo: "scalar_loop (nat ?d) p (?o arr z, left, right, sm, bg) = (?o arr1 z, l1, r1, sm1, bg1)"
    using ovr_scalar_loop[of "nat ?d" right left left right p arr z sm bg] d by (simp add: sl)
  have sc: "scalar_post p arr left right sm bg arr1 l1 r1 sm1 bg1"
    using d by (intro scalar_loop_post[OF sl]) simp
  then have o: "left \<le> l1" "l1 \<le> r1" "r1 \<le> right" unfolding scalar_post_def by blast+
  have len: "r1 - l1 = ?kn * ((right - left) div ?kn)"
    using scalar_loop_length[OF sl] d by (simp add: minus_mod_eq_mult_div)
  define m where "m = nat ((right - left) div ?kn)"
  have q: "2 \<le> (right - left) div ?kn" using False kn by (intro div_ge_2) simp_all
  then have lm: "r1 - l1 = int m * ?kn" and m2: "2 \<le> m" using len by (simp_all add: m_def)
  have "0 < int m * ?kn" using m2 kn by simp
  then have ne: "l1 \<noteq> r1" using lm by auto
  let ?s0 = "\<lparr>c_arr = arr1, c_left = l1 + ?kn, c_right = r1 - ?kn,
                c_l_store = l1, c_r_store = r1 - int N,
                c_min_vec = set1 N sm1, c_max_vec = set1 N bg1\<rparr>"
  let ?t = "(loop_body_unrolled N K (set1 N p) ^^ (m - 2)) ?s0"
  let ?vs = "map (\<lambda>ii. loadu N arr1 (l1 + int ii * int N)) [0..<K]
                            @ map (\<lambda>ii. loadu N arr1 ((r1 - ?kn) + int ii * int N)) [0..<K]"
  let ?u = "partition_vecs N (set1 N p) ?vs ?t"
  note ov = ovr_vec_phase(1,2)[OF N K lm m2 o(1) o(3), where p = p and arr = arr1 and sm = sm1 and bg = bg1 and z = z]
    ovr_vec_phase(3)[OF N K lm m2 o(1) o(3), where arr = arr1 and z = z]
  have 1: "partition_avx512_unrolled N K arr left right p sm bg =
           Some (let u = ?u in (c_arr u, reducemin (c_min_vec u), reducemax (c_max_vec u), c_l_store u))"
    using False sl ne vec_phase(2)[OF N K lm m2, where p = p and arr = arr1 and sm = sm1 and bg = bg1]
    unfolding rem[symmetric] by (rule unrolled_unfold)
  have "partition_avx512_unrolled N K (?o arr z) left right p sm bg =
           Some (let u = partition_vecs N (set1 N p)
                           (map (\<lambda>ii. loadu N (?o arr1 z) (l1 + int ii * int N)) [0..<K]
                            @ map (\<lambda>ii. loadu N (?o arr1 z) ((r1 - ?kn) + int ii * int N)) [0..<K])
                           (?t\<lparr>c_arr := ?o (c_arr ?t) z\<rparr>)
                 in (c_arr u, reducemin (c_min_vec u), reducemax (c_max_vec u), c_l_store u))"
    using False slo ne ov(1) unfolding rem[symmetric] by (rule unrolled_unfold)
  then have 2: "partition_avx512_unrolled N K (?o arr z) left right p sm bg =
           Some (let u = ?u in (?o (c_arr u) z, reducemin (c_min_vec u), reducemax (c_max_vec u), c_l_store u))"
    unfolding ov(3) ov(2) by (simp add: Let_def)
  show ?thesis unfolding 1 2 by (simp add: Let_def)
qed

lemma ovr_self: "(\<And>i. L \<le> i \<and> i < R \<Longrightarrow> a2 i = a i) \<Longrightarrow> ovr L R a a2 = a2"
  by (rule ext) (simp add: ovr_def)

lemma frame_consequence:
  fixes p :: "'a::linorder"
  assumes fr: "\<And>z. f (ovr left right arr z) = map_option (\<lambda>(a', s', b', k). (ovr left right a' z, s', b', k)) (f arr)"
    and res: "f arr = Some (arr', s', b', b)"
    and post: "partition_post p arr left right sm bg (arr', s', b', b)"
  shows "mrange arr' left right = mrange arr left right
       \<and> (\<forall>i. i < left \<or> right \<le> i \<longrightarrow> arr' i = arr i)
       \<and> (\<forall>arr2. (\<forall>i. left \<le> i \<and> i < right \<longrightarrow> arr2 i = arr i) \<longrightarrow>
             (\<exists>arr2'. f arr2 = Some (arr2', s', b', b)
                \<and> (\<forall>i. left \<le> i \<and> i < right \<longrightarrow> arr2' i = arr' i)
                \<and> (\<forall>i. i < left \<or> right \<le> i \<longrightarrow> arr2' i = arr2 i)))"
proof (intro conjI allI impI)
  show "mrange arr' left right = mrange arr left right"
    using post unfolding partition_post_def prod.case by blast
  show "arr' i = arr i" if "i < left \<or> right \<le> i" for i
    using post that unfolding partition_post_def prod.case by blast
  fix arr2 assume ag: "\<forall>i. left \<le> i \<and> i < right \<longrightarrow> arr2 i = arr i"
  then have "ovr left right arr arr2 = arr2" by (intro ovr_self) simp
  then have "f arr2 = Some (ovr left right arr' arr2, s', b', b)"
    using fr[of arr2] res by simp
  moreover have "\<forall>i. left \<le> i \<and> i < right \<longrightarrow> ovr left right arr' arr2 i = arr' i"
    by (simp add: ovr_def)
  moreover have "\<forall>i. i < left \<or> right \<le> i \<longrightarrow> ovr left right arr' arr2 i = arr2 i"
    by (auto simp add: ovr_def)
  ultimately show "\<exists>arr2'. f arr2 = Some (arr2', s', b', b)
                \<and> (\<forall>i. left \<le> i \<and> i < right \<longrightarrow> arr2' i = arr' i)
                \<and> (\<forall>i. i < left \<or> right \<le> i \<longrightarrow> arr2' i = arr2 i)"
    by blast
qed

subsection \<open>The reference sort and selection meet their contracts\<close>

lemma ref_qsort_facts:
  fixes arr :: "'a::linorder mem"
  assumes "0 \<le> n"
  shows "loadu (nat n) (ref_qsort arr n) 0 = sort (loadu (nat n) arr 0)"
    and "mrange (ref_qsort arr n) 0 n = mrange arr 0 n"
    and "i < 0 \<or> n \<le> i \<Longrightarrow> ref_qsort arr n i = arr i"
proof -
  have l: "length (sort (loadu (nat n) arr 0)) = nat n" by simp
  show 1: "loadu (nat n) (ref_qsort arr n) 0 = sort (loadu (nat n) arr 0)"
    unfolding ref_qsort_def using loadu_write_seq[of "sort (loadu (nat n) arr 0)" arr 0] by simp
  show "mrange (ref_qsort arr n) 0 n = mrange arr 0 n"
    unfolding mrange_def using 1 by simp
  show "ref_qsort arr n i = arr i" if "i < 0 \<or> n \<le> i"
    unfolding ref_qsort_def using that assms by (intro write_seq_outside) auto
qed

lemma ref_qsort_contract: "qsort_contract (ref_qsort :: 'a::linorder mem \<Rightarrow> int \<Rightarrow> 'a mem)"
  unfolding qsort_contract_def using ref_qsort_facts by (metis sorted_sort)

lemma ref_qselect_contract: "qselect_contract (ref_qselect :: 'a::linorder mem \<Rightarrow> int \<Rightarrow> int \<Rightarrow> 'a mem)"
  unfolding qselect_contract_def
proof (intro allI impI conjI)
  fix arr :: "'a mem" and k n :: int
  assume kn: "0 \<le> k \<and> k < n"
  then have n: "0 \<le> n" by simp
  let ?a = "ref_qselect arr k n"
  have ld: "loadu (nat n) ?a 0 = sort (loadu (nat n) arr 0)"
    unfolding ref_qselect_def by (rule ref_qsort_facts(1)[OF n])
  have nth: "?a i = sort (loadu (nat n) arr 0) ! nat i" if "0 \<le> i" "i < n" for i
    using arg_cong[OF ld, of "\<lambda>xs. xs ! nat i"] that by simp
  have srt: "sorted (sort (loadu (nat n) arr 0))" by simp
  show "mrange ?a 0 n = mrange arr 0 n"
    unfolding ref_qselect_def by (rule ref_qsort_facts(2)[OF n])
  show "?a i \<le> ?a k" if "0 \<le> i \<and> i < k" for i
  proof -
    have "nat i \<le> nat k" "nat k < length (sort (loadu (nat n) arr 0))" using that kn by auto
    from sorted_nth_mono[OF srt this] show ?thesis using that kn nth[of i] nth[of k] by simp
  qed
  show "?a k \<le> ?a j" if "k < j \<and> j < n" for j
  proof -
    have "nat k \<le> nat j" "nat j < length (sort (loadu (nat n) arr 0))" using that kn by auto
    from sorted_nth_mono[OF srt this] show ?thesis using that kn nth[of j] nth[of k] by simp
  qed
  show "?a i = arr i" if "i < 0 \<or> n \<le> i" for i
    unfolding ref_qselect_def using that by (rule ref_qsort_facts(3)[OF n])
qed

lemma loadu_Suc: "loadu (Suc n) arr a = loadu n arr a @ [arr (a + int n)]"
  using loadu_add[of n 1 arr a] by (simp add: loadu_def)

subsection \<open>The histories of the loops\<close>

text \<open>
  The functions with a history compute what the functions without compute; on a valid
  range the histories are arithmetic progressions.
\<close>

lemma scalar_loop_log_eq:
  "scalar_loop_log i p (arr, l, r, sm, bg) h =
     (scalar_loop i p (arr, l, r, sm, bg), h @ map (\<lambda>j. r - l - int j) [1..<Suc i])"
proof (induction i arbitrary: arr l r sm bg h)
  case 0
  then show ?case by simp
next
  case (Suc i)
  have u: "[1..<Suc (Suc i)] = 1 # map Suc [1..<Suc i]"
    by (metis One_nat_def map_Suc_upt upt_conv_Cons zero_less_Suc Suc_less_eq)
  have m: "map (\<lambda>j. r - l - int j) [1..<Suc (Suc i)]
             = (r - l - 1) # map (\<lambda>j. r - l - 1 - int j) [1..<Suc i]"
    unfolding u by (simp add: comp_def algebra_simps del: upt_Suc)
  show ?case
    unfolding m by (simp add: Suc.IH Let_def algebra_simps del: upt_Suc)
qed

lemma while_loop_log_funpow:
  fixes body :: "'a cursors \<Rightarrow> 'a cursors"
  assumes "\<forall>j<n. c_right ((body ^^ j) s) - c_left ((body ^^ j) s) \<noteq> 0"
    and "c_right ((body ^^ n) s) - c_left ((body ^^ n) s) = 0"
  shows "while_loop_log body s h =
           Some ((body ^^ n) s,
                 h @ map (\<lambda>j. c_right ((body ^^ j) s) - c_left ((body ^^ j) s)) [1..<Suc n])"
  using assms
proof (induction n arbitrary: s h)
  case 0
  then show ?case by (subst while_loop_log.simps) simp
next
  case (Suc n)
  have c0: "c_right s - c_left s \<noteq> 0" using Suc.prems(1) by (auto dest: spec[of _ 0])
  have "\<forall>j<n. c_right ((body ^^ j) (body s)) - c_left ((body ^^ j) (body s)) \<noteq> 0"
    using Suc.prems(1) by (auto simp: funpow_swap1 dest: spec[of _ "Suc _"])
  moreover have "c_right ((body ^^ n) (body s)) - c_left ((body ^^ n) (body s)) = 0"
    using Suc.prems(2) by (simp add: funpow_swap1)
  ultimately have ih: "while_loop_log body (body s) h' =
      Some ((body ^^ n) (body s),
            h' @ map (\<lambda>j. c_right ((body ^^ j) (body s)) - c_left ((body ^^ j) (body s))) [1..<Suc n])"
    for h'
    by (rule Suc.IH)
  have u: "[1..<Suc (Suc n)] = 1 # map Suc [1..<Suc n]"
    by (metis One_nat_def map_Suc_upt upt_conv_Cons zero_less_Suc Suc_less_eq)
  show ?case
    unfolding u using c0
    by (subst while_loop_log.simps) (simp add: ih funpow_swap1 comp_def del: upt_Suc)
qed


lemma while_loop_log_exact:
  fixes body :: "'a cursors \<Rightarrow> 'a cursors"
  assumes sh: "\<And>s. c_right (body s) - c_left (body s) = c_right s - c_left s - d"
    and d: "0 < d" and len: "c_right s - c_left s = int n * d"
  shows "while_loop_log body s h =
           Some ((body ^^ n) s, h @ map (\<lambda>j. int (n - j) * d) [1..<Suc n])"
proof -
  have g: "c_right ((body ^^ j) s) - c_left ((body ^^ j) s) = int (n - j) * d" if "j \<le> n" for j
    unfolding funpow_shrink[of body d, OF sh] len using that
    by (simp add: of_nat_diff algebra_simps)
  have a: "\<forall>j<n. c_right ((body ^^ j) s) - c_left ((body ^^ j) s) \<noteq> 0"
    using g d by simp
  have b: "c_right ((body ^^ n) s) - c_left ((body ^^ n) s) = 0" using g[of n] by simp
  have m: "map (\<lambda>j. c_right ((body ^^ j) s) - c_left ((body ^^ j) s)) [1..<Suc n]
             = map (\<lambda>j. int (n - j) * d) [1..<Suc n]"
  proof (rule map_cong)
    fix j assume "j \<in> set [1..<Suc n]"
    then have "j \<le> n" by auto
    then show "c_right ((body ^^ j) s) - c_left ((body ^^ j) s) = int (n - j) * d" by (rule g)
  qed simp
  show ?thesis unfolding while_loop_log_funpow[of n body s h, OF a b] m ..
qed

lemma partition_avx512_log_eq:
  fixes p :: "'a::linorder"
  assumes N: "0 < N" "N \<le> 32" and lr: "left \<le> right"
  shows "partition_avx512_log N arr left right p sm bg =
           map_option (\<lambda>res. (res,
               map (\<lambda>j. right - left - int j) [1..<Suc (nat ((right - left) mod int N))],
               map (\<lambda>j. int (nat ((right - left) div int N) - 2 - j) * int N)
                 [1..<Suc (nat ((right - left) div int N) - 2)]))
             (partition_avx512 N arr left right p sm bg)"
proof -
  have n: "0 < int N" using N by simp
  obtain arr1 l1 r1 sm1 bg1 where
    sl: "scalar_loop (nat (c_rem (right - left) (int N))) p (arr, left, right, sm, bg)
           = (arr1, l1, r1, sm1, bg1)"
    by (cases "scalar_loop (nat (c_rem (right - left) (int N))) p (arr, left, right, sm, bg)") auto
  note f = scalar_phase_facts[OF n lr sl]
  define m where "m = nat ((right - left) div int N)"
  have q: "0 \<le> (right - left) div int N" using lr n by (simp add: pos_imp_zdiv_nonneg_iff)
  have lm: "r1 - l1 = int m * int N"
    unfolding f(2) m_def using q by (simp add: minus_mod_eq_mult_div)
  have sll: "scalar_loop_log (nat (c_rem (right - left) (int N))) p (arr, left, right, sm, bg) []
           = ((arr1, l1, r1, sm1, bg1),
              map (\<lambda>j. right - left - int j) [1..<Suc (nat ((right - left) mod int N))])"
    unfolding scalar_loop_log_eq sl f(1)[symmetric] by simp
  consider "m = 0" | "m = 1" | "2 \<le> m" by linarith
  then show ?thesis
  proof cases
    case 1
    then have e: "l1 = r1" using lm by simp
    show ?thesis
      unfolding partition_avx512_def partition_avx512_log_def sl sll m_def[symmetric]
      using e 1 by simp
  next
    case 2
    then have e: "l1 \<noteq> r1" "r1 - l1 = int N" using lm n by simp_all
    show ?thesis
      unfolding partition_avx512_def partition_avx512_log_def sl sll m_def[symmetric]
      using e 2 by (simp add: Let_def split_def)
  next
    case 3
    then have "int m * int N \<ge> 2 * int N" using n by (intro mult_right_mono) simp_all
    then have "r1 - l1 \<ge> 2 * int N" unfolding lm .
    then have e: "l1 \<noteq> r1" "r1 - l1 \<noteq> int N" using n by linarith+
    let ?s0 = "\<lparr>c_arr = arr1, c_left = l1 + int N, c_right = r1 - int N,
                c_l_store = l1, c_r_store = r1 - int N,
                c_min_vec = set1 N sm1, c_max_vec = set1 N bg1\<rparr>"
    have w: "c_right ?s0 - c_left ?s0 = int (m - 2) * int N"
      using lm 3 by (simp add: of_nat_diff algebra_simps)
    have wl: "while_loop (loop_body N (set1 N p)) ?s0 = Some ((loop_body N (set1 N p) ^^ (m - 2)) ?s0)"
      by (rule while_loop_exact[OF loop_body_shrink n w])
    have wll: "while_loop_log (loop_body N (set1 N p)) ?s0 [] =
                 Some ((loop_body N (set1 N p) ^^ (m - 2)) ?s0,
                       map (\<lambda>j. int (m - 2 - j) * int N) [1..<Suc (m - 2)])"
      using while_loop_log_exact[OF loop_body_shrink n w, where h = "[]"] by simp
    show ?thesis
      unfolding partition_avx512_def partition_avx512_log_def sl sll m_def[symmetric]
      using e by (simp add: Let_def split_def wl wll del: upt_Suc)
  qed
qed


lemma partition_avx512_unrolled_log_eq:
  fixes p :: "'a::linorder"
  assumes N: "0 < N" "N \<le> 32" and K: "0 < K" and lr: "left \<le> right"
    and big: "\<not> right - left \<le> 2 * int K * int N"
  shows "partition_avx512_unrolled_log N K arr left right p sm bg =
           map_option (\<lambda>res. (res,
               map (\<lambda>j. right - left - int j) [1..<Suc (nat ((right - left) mod (int K * int N)))],
               map (\<lambda>j. int (nat ((right - left) div (int K * int N)) - 2 - j) * (int K * int N))
                 [1..<Suc (nat ((right - left) div (int K * int N)) - 2)]))
             (partition_avx512_unrolled N K arr left right p sm bg)"
proof -
  let ?d = "int K * int N"
  have d: "0 < ?d" using N K by simp
  obtain arr1 l1 r1 sm1 bg1 where
    sl: "scalar_loop (nat (c_rem (right - left) ?d)) p (arr, left, right, sm, bg)
           = (arr1, l1, r1, sm1, bg1)"
    by (cases "scalar_loop (nat (c_rem (right - left) ?d)) p (arr, left, right, sm, bg)") auto
  note f = scalar_phase_facts[OF d lr sl]
  define m where "m = nat ((right - left) div ?d)"
  have q: "0 \<le> (right - left) div ?d" using lr d by (simp add: pos_imp_zdiv_nonneg_iff)
  have lm: "r1 - l1 = int m * ?d"
    unfolding f(2) m_def using q by (simp add: minus_mod_eq_mult_div)
  have "2 \<le> (right - left) div ?d" using big by (intro div_ge_2[OF d]) (simp add: algebra_simps)
  then have m2: "2 \<le> m" unfolding m_def by simp
  have sll: "scalar_loop_log (nat (c_rem (right - left) ?d)) p (arr, left, right, sm, bg) []
           = ((arr1, l1, r1, sm1, bg1),
              map (\<lambda>j. right - left - int j) [1..<Suc (nat ((right - left) mod ?d))])"
    unfolding scalar_loop_log_eq sl f(1)[symmetric] by simp
  from m2 have "int m * ?d \<ge> 2 * ?d" using d by (intro mult_right_mono) simp_all
  then have "r1 - l1 \<ge> 2 * ?d" unfolding lm .
  then have e: "l1 \<noteq> r1" using d by linarith
  let ?s0 = "\<lparr>c_arr = arr1, c_left = l1 + int K * int N, c_right = r1 - int K * int N,
              c_l_store = l1, c_r_store = r1 - int N,
              c_min_vec = set1 N sm1, c_max_vec = set1 N bg1\<rparr>"
  let ?body = "loop_body_unrolled N K (set1 N p)"
  have w: "c_right ?s0 - c_left ?s0 = int (m - 2) * ?d"
    using lm m2 by (simp add: of_nat_diff algebra_simps)
  have wl: "while_loop ?body ?s0 = Some ((?body ^^ (m - 2)) ?s0)"
    by (rule while_loop_exact[OF loop_body_unrolled_shrink d w])
  have wll: "while_loop_log ?body ?s0 [] =
               Some ((?body ^^ (m - 2)) ?s0, map (\<lambda>j. int (m - 2 - j) * ?d) [1..<Suc (m - 2)])"
    using while_loop_log_exact[OF loop_body_unrolled_shrink d w, where h = "[]"] by simp
  show ?thesis
    unfolding partition_avx512_unrolled_def partition_avx512_unrolled_log_def sl sll m_def[symmetric]
    using e big by (simp add: Let_def split_def wl wll del: upt_Suc)
qed

lemma last_range_log: "last (len # map (\<lambda>j. len - int j) [1..<Suc i]) = len - int i"
  by (cases i) simp_all

lemma last_window_log: "last (0 # map (\<lambda>j. int (n - j) * d) [1..<Suc n]) = 0"
  by (cases n) simp_all

lemma remaining_aligned:
  fixes len d :: int
  assumes "0 < d" "0 \<le> len"
  shows "d dvd len - int (nat (len mod d))"
proof -
  have "0 \<le> len mod d" using assms by simp
  then show ?thesis by (simp add: minus_mod_eq_mult_div)
qed

section \<open>Properties of the program\<close>

text \<open>
  C1.  On a valid range \<open>[left, right)\<close>, with \<open>0 < N \<le> 32\<close> lanes and an unroll factor
  \<open>0 < K\<close>, both \<open>partition_avx512\<close> and \<open>partition_avx512_unrolled\<close> return, and the
  boundary \<open>b\<close> they return lies in the range, every element at an index in \<open>[left, b)\<close>
  is below the pivot and every element at an index in \<open>[b, right)\<close> is greater or equal
  to it: elements equal to the pivot are on the high side.
\<close>

theorem partition_split:
  fixes p :: "'a::linorder"
  assumes "0 < N" "N \<le> 32" "0 < K" "left \<le> right"
  shows "(\<exists>arr' s' b' b. partition_avx512 N arr left right p sm bg = Some (arr', s', b', b)
            \<and> left \<le> b \<and> b \<le> right
            \<and> (\<forall>i. left \<le> i \<and> i < b \<longrightarrow> arr' i < p)
            \<and> (\<forall>i. b \<le> i \<and> i < right \<longrightarrow> p \<le> arr' i))
       \<and> (\<exists>arr' s' b' b. partition_avx512_unrolled N K arr left right p sm bg = Some (arr', s', b', b)
            \<and> left \<le> b \<and> b \<le> right
            \<and> (\<forall>i. left \<le> i \<and> i < b \<longrightarrow> arr' i < p)
            \<and> (\<forall>i. b \<le> i \<and> i < right \<longrightarrow> p \<le> arr' i))"
proof -
  from assms obtain arr1 s1 b1 k1 arr2 s2 b2 k2 where
    1: "partition_avx512 N arr left right p sm bg = Some (arr1, s1, b1, k1)"
    and p1: "partition_post p arr left right sm bg (arr1, s1, b1, k1)"
    and 2: "partition_avx512_unrolled N K arr left right p sm bg = Some (arr2, s2, b2, k2)"
    and p2: "partition_post p arr left right sm bg (arr2, s2, b2, k2)"
    by (rule correct_both)
  from p1 have "left \<le> k1 \<and> k1 \<le> right \<and> (\<forall>i. left \<le> i \<and> i < k1 \<longrightarrow> arr1 i < p)
        \<and> (\<forall>i. k1 \<le> i \<and> i < right \<longrightarrow> p \<le> arr1 i)"
    unfolding partition_post_def prod.case by blast
  moreover from p2 have "left \<le> k2 \<and> k2 \<le> right \<and> (\<forall>i. left \<le> i \<and> i < k2 \<longrightarrow> arr2 i < p)
        \<and> (\<forall>i. k2 \<le> i \<and> i < right \<longrightarrow> p \<le> arr2 i)"
    unfolding partition_post_def prod.case by blast
  ultimately show ?thesis using 1 2 by blast
qed

theorem partition_split_witness:
  "(0 :: nat) < 2 \<and> (2 :: nat) \<le> 32 \<and> (0 :: nat) < 1 \<and> (0 :: int) \<le> 8
   \<and> map_option (\<lambda>(a, s, b', b). (map a [0, 1, 2, 3, 4, 5, 6, 7], b))
        (partition_avx512 2 example_array 0 8 5 100 (- 100)) = Some ([1, 2, 3, 4, 7, 5, 9, 8], 4)
   \<and> map_option (\<lambda>(a, s, b', b). (map a [0, 1, 2, 3, 4, 5, 6, 7], b))
        (partition_avx512_unrolled 2 1 example_array 0 8 5 100 (- 100)) = Some ([1, 2, 3, 4, 7, 5, 9, 8], 4)
   \<and> (\<exists>arr' s' b' b. partition_avx512 2 example_array 0 8 5 100 (- 100) = Some (arr', s', b', b)
            \<and> 0 \<le> b \<and> b \<le> 8
            \<and> (\<forall>i. 0 \<le> i \<and> i < b \<longrightarrow> arr' i < 5)
            \<and> (\<forall>i. b \<le> i \<and> i < 8 \<longrightarrow> 5 \<le> arr' i))
   \<and> (\<exists>arr' s' b' b. partition_avx512_unrolled 2 1 example_array 0 8 5 100 (- 100) = Some (arr', s', b', b)
            \<and> 0 \<le> b \<and> b \<le> 8
            \<and> (\<forall>i. 0 \<le> i \<and> i < b \<longrightarrow> arr' i < 5)
            \<and> (\<forall>i. b \<le> i \<and> i < 8 \<longrightarrow> 5 \<le> arr' i))"
proof -
  have h: "(0 :: nat) < 2" "(2 :: nat) \<le> 32" "(0 :: nat) < 1" "(0 :: int) \<le> 8" by simp_all
  have e1: "map_option (\<lambda>(a, s, b', b). (map a [0, 1, 2, 3, 4, 5, 6, 7], b))
        (partition_avx512 2 example_array 0 8 5 100 (- 100)) = Some ([1, 2, 3, 4, 7, 5, 9, 8], 4)"
    by code_simp
  have e2: "map_option (\<lambda>(a, s, b', b). (map a [0, 1, 2, 3, 4, 5, 6, 7], b))
        (partition_avx512_unrolled 2 1 example_array 0 8 5 100 (- 100)) = Some ([1, 2, 3, 4, 7, 5, 9, 8], 4)"
    by code_simp
  from partition_split[OF h, of example_array 5 100 "- 100"] h e1 e2 show ?thesis by blast
qed

text \<open>
  C2.  On a valid range both functions return an array that holds in \<open>[left, right)\<close>
  the same multiset of elements as before and is unchanged at every index outside the
  range.  No slot outside the range is read: a call on any array \<open>arr2\<close> that agrees
  with \<open>arr\<close> inside the range returns the same boundary and accumulators, the same
  contents inside the range and leaves \<open>arr2\<close> as it was outside.
\<close>

theorem partition_conserves:
  fixes p :: "'a::linorder"
  assumes N: "0 < N" "N \<le> 32" and K: "0 < K" and lr: "left \<le> right"
  shows "(\<exists>arr' s' b' b. partition_avx512 N arr left right p sm bg = Some (arr', s', b', b)
            \<and> mrange arr' left right = mrange arr left right
            \<and> (\<forall>i. i < left \<or> right \<le> i \<longrightarrow> arr' i = arr i)
            \<and> (\<forall>arr2. (\<forall>i. left \<le> i \<and> i < right \<longrightarrow> arr2 i = arr i) \<longrightarrow>
                 (\<exists>arr2'. partition_avx512 N arr2 left right p sm bg = Some (arr2', s', b', b)
                    \<and> (\<forall>i. left \<le> i \<and> i < right \<longrightarrow> arr2' i = arr' i)
                    \<and> (\<forall>i. i < left \<or> right \<le> i \<longrightarrow> arr2' i = arr2 i))))
       \<and> (\<exists>arr' s' b' b. partition_avx512_unrolled N K arr left right p sm bg = Some (arr', s', b', b)
            \<and> mrange arr' left right = mrange arr left right
            \<and> (\<forall>i. i < left \<or> right \<le> i \<longrightarrow> arr' i = arr i)
            \<and> (\<forall>arr2. (\<forall>i. left \<le> i \<and> i < right \<longrightarrow> arr2 i = arr i) \<longrightarrow>
                 (\<exists>arr2'. partition_avx512_unrolled N K arr2 left right p sm bg = Some (arr2', s', b', b)
                    \<and> (\<forall>i. left \<le> i \<and> i < right \<longrightarrow> arr2' i = arr' i)
                    \<and> (\<forall>i. i < left \<or> right \<le> i \<longrightarrow> arr2' i = arr2 i))))"
proof -
  from N K lr obtain arr1 s1 b1 k1 arr2 s2 b2 k2 where
    1: "partition_avx512 N arr left right p sm bg = Some (arr1, s1, b1, k1)"
    and p1: "partition_post p arr left right sm bg (arr1, s1, b1, k1)"
    and 2: "partition_avx512_unrolled N K arr left right p sm bg = Some (arr2, s2, b2, k2)"
    and p2: "partition_post p arr left right sm bg (arr2, s2, b2, k2)"
    by (rule correct_both)
  note a = frame_consequence[of "\<lambda>a. partition_avx512 N a left right p sm bg" left right arr,
      OF partition_avx512_frame[OF N lr] 1 p1]
  note b = frame_consequence[of "\<lambda>a. partition_avx512_unrolled N K a left right p sm bg" left right arr,
      OF partition_avx512_unrolled_frame[OF N K lr] 2 p2]
  show ?thesis using 1 2 a b by blast
qed

theorem partition_conserves_witness:
  "(0 :: nat) < 2 \<and> (2 :: nat) \<le> 32 \<and> (0 :: nat) < 1 \<and> (1 :: int) \<le> 6
   \<and> map_option (\<lambda>(a, s, b', b). (map a [0, 1, 2, 3, 4, 5, 6, 7], b))
        (partition_avx512 2 example_array 1 6 5 5 5) = Some ([5, 3, 1, 2, 9, 8, 7, 4], 4)
   \<and> (\<exists>arr' s' b' b. partition_avx512 2 example_array 1 6 5 5 5 = Some (arr', s', b', b)
            \<and> mrange arr' 1 6 = mrange example_array 1 6
            \<and> (\<forall>i. i < 1 \<or> 6 \<le> i \<longrightarrow> arr' i = example_array i)
            \<and> (\<forall>arr2. (\<forall>i. 1 \<le> i \<and> i < 6 \<longrightarrow> arr2 i = example_array i) \<longrightarrow>
                 (\<exists>arr2'. partition_avx512 2 arr2 1 6 5 5 5 = Some (arr2', s', b', b)
                    \<and> (\<forall>i. 1 \<le> i \<and> i < 6 \<longrightarrow> arr2' i = arr' i)
                    \<and> (\<forall>i. i < 1 \<or> 6 \<le> i \<longrightarrow> arr2' i = arr2 i))))"
proof -
  have h: "(0 :: nat) < 2" "(2 :: nat) \<le> 32" "(0 :: nat) < 1" "(1 :: int) \<le> 6" by simp_all
  have e: "map_option (\<lambda>(a, s, b', b). (map a [0, 1, 2, 3, 4, 5, 6, 7], b))
        (partition_avx512 2 example_array 1 6 5 5 5) = Some ([5, 3, 1, 2, 9, 8, 7, 4], 4)"
    by code_simp
  from conjunct1[OF partition_conserves[OF h, of example_array 5 5 5]] h e
  show ?thesis by (intro conjI)
qed

text \<open>
  C3.  Both functions return as \<open>smallest\<close> the minimum of the incoming \<open>smallest\<close>
  and the elements of the range, and as \<open>biggest\<close> the maximum of the incoming
  \<open>biggest\<close> and the elements of the range; so the accumulators never get worse than
  the values passed in.
\<close>

theorem partition_minmax:
  fixes p :: "'a::linorder"
  assumes "0 < N" "N \<le> 32" "0 < K" "left \<le> right"
  shows "(\<exists>arr' s' b' b. partition_avx512 N arr left right p sm bg = Some (arr', s', b', b)
            \<and> s' = Min (insert sm (arr ` {left..<right}))
            \<and> b' = Max (insert bg (arr ` {left..<right}))
            \<and> s' \<le> sm \<and> bg \<le> b')
       \<and> (\<exists>arr' s' b' b. partition_avx512_unrolled N K arr left right p sm bg = Some (arr', s', b', b)
            \<and> s' = Min (insert sm (arr ` {left..<right}))
            \<and> b' = Max (insert bg (arr ` {left..<right}))
            \<and> s' \<le> sm \<and> bg \<le> b')"
proof -
  from assms obtain arr1 s1 b1 k1 arr2 s2 b2 k2 where
    1: "partition_avx512 N arr left right p sm bg = Some (arr1, s1, b1, k1)"
    and p1: "partition_post p arr left right sm bg (arr1, s1, b1, k1)"
    and 2: "partition_avx512_unrolled N K arr left right p sm bg = Some (arr2, s2, b2, k2)"
    and p2: "partition_post p arr left right sm bg (arr2, s2, b2, k2)"
    by (rule correct_both)
  have le: "Min (insert sm (arr ` {left..<right})) \<le> sm" "bg \<le> Max (insert bg (arr ` {left..<right}))"
    by simp_all
  from p1 have "s1 = Min (insert sm (arr ` {left..<right})) \<and> b1 = Max (insert bg (arr ` {left..<right}))"
    unfolding partition_post_def prod.case set_mset_mrange by blast
  moreover from p2 have "s2 = Min (insert sm (arr ` {left..<right})) \<and> b2 = Max (insert bg (arr ` {left..<right}))"
    unfolding partition_post_def prod.case set_mset_mrange by blast
  ultimately show ?thesis using 1 2 le by simp
qed

theorem partition_minmax_witness:
  "(0 :: nat) < 2 \<and> (2 :: nat) \<le> 32 \<and> (0 :: nat) < 1 \<and> (0 :: int) \<le> 8
   \<and> map_option (\<lambda>(a, s, b', b). (s, b')) (partition_avx512 2 example_array 0 8 5 6 6) = Some (1, 9)
   \<and> map_option (\<lambda>(a, s, b', b). (s, b')) (partition_avx512_unrolled 2 1 example_array 0 8 5 0 7) = Some (0, 9)
   \<and> (\<exists>arr' s' b' b. partition_avx512 2 example_array 0 8 5 6 6 = Some (arr', s', b', b)
            \<and> s' = Min (insert 6 (example_array ` {0..<8}))
            \<and> b' = Max (insert 6 (example_array ` {0..<8}))
            \<and> s' \<le> 6 \<and> 6 \<le> b')"
proof -
  have h: "(0 :: nat) < 2" "(2 :: nat) \<le> 32" "(0 :: nat) < 1" "(0 :: int) \<le> 8" by simp_all
  have e1: "map_option (\<lambda>(a, s, b', b). (s, b')) (partition_avx512 2 example_array 0 8 5 6 6) = Some (1, 9)"
    by code_simp
  have e2: "map_option (\<lambda>(a, s, b', b). (s, b')) (partition_avx512_unrolled 2 1 example_array 0 8 5 0 7) = Some (0, 9)"
    by code_simp
  from partition_minmax[OF h, of example_array 5 6 6] h e1 e2 show ?thesis by blast
qed

text \<open>
  C4.  For every unroll factor \<open>0 < K\<close> (in particular 1, 2, 4 and 8),
  \<open>partition_avx512_unrolled\<close> returns the same boundary as \<open>partition_avx512\<close>, and
  the two results hold the same multiset of elements below the boundary and the same
  multiset of elements from the boundary on.
\<close>

theorem unroll_equivalence:
  fixes p :: "'a::linorder"
  assumes "0 < N" "N \<le> 32" "0 < K" "left \<le> right"
  shows "\<exists>arr1 s1 b1 arr2 s2 b2 b.
           partition_avx512 N arr left right p sm bg = Some (arr1, s1, b1, b)
         \<and> partition_avx512_unrolled N K arr left right p sm bg = Some (arr2, s2, b2, b)
         \<and> mrange arr1 left b = mrange arr2 left b
         \<and> mrange arr1 b right = mrange arr2 b right"
proof -
  from assms obtain arr1 s1 b1 k1 arr2 s2 b2 k2 where
    1: "partition_avx512 N arr left right p sm bg = Some (arr1, s1, b1, k1)"
    and p1: "partition_post p arr left right sm bg (arr1, s1, b1, k1)"
    and 2: "partition_avx512_unrolled N K arr left right p sm bg = Some (arr2, s2, b2, k2)"
    and p2: "partition_post p arr left right sm bg (arr2, s2, b2, k2)"
    by (rule correct_both)
  have k: "k1 = k2" using post_sides(3)[OF p1] post_sides(3)[OF p2] by simp
  have "mrange arr1 left k1 = mrange arr2 left k1"
    using post_sides(1)[OF p1] post_sides(1)[OF p2] k by simp
  moreover have "mrange arr1 k1 right = mrange arr2 k1 right"
    using post_sides(2)[OF p1] post_sides(2)[OF p2] k by simp
  ultimately show ?thesis using 1 2 k by blast
qed

theorem unroll_equivalence_witness:
  "(0 :: nat) < 1 \<and> (1 :: nat) \<le> 32 \<and> (0 :: nat) < 2 \<and> (0 :: int) \<le> 8
   \<and> map_option (\<lambda>(a, s, b', b). (map a [0, 1, 2, 3, 4, 5, 6, 7], b))
        (partition_avx512 1 example_array 0 8 5 5 5) = Some ([3, 2, 1, 4, 5, 9, 7, 8], 4)
   \<and> map_option (\<lambda>(a, s, b', b). (map a [0, 1, 2, 3, 4, 5, 6, 7], b))
        (partition_avx512_unrolled 1 2 example_array 0 8 5 5 5) = Some ([1, 2, 3, 4, 7, 5, 9, 8], 4)
   \<and> (\<exists>arr1 s1 b1 arr2 s2 b2 b.
           partition_avx512 1 example_array 0 8 5 5 5 = Some (arr1, s1, b1, b)
         \<and> partition_avx512_unrolled 1 2 example_array 0 8 5 5 5 = Some (arr2, s2, b2, b)
         \<and> mrange arr1 0 b = mrange arr2 0 b
         \<and> mrange arr1 b 8 = mrange arr2 b 8)"
proof -
  have h: "(0 :: nat) < 1" "(1 :: nat) \<le> 32" "(0 :: nat) < 2" "(0 :: int) \<le> 8" by simp_all
  have e1: "map_option (\<lambda>(a, s, b', b). (map a [0, 1, 2, 3, 4, 5, 6, 7], b))
        (partition_avx512 1 example_array 0 8 5 5 5) = Some ([3, 2, 1, 4, 5, 9, 7, 8], 4)"
    by code_simp
  have e2: "map_option (\<lambda>(a, s, b', b). (map a [0, 1, 2, 3, 4, 5, 6, 7], b))
        (partition_avx512_unrolled 1 2 example_array 0 8 5 5 5) = Some ([1, 2, 3, 4, 7, 5, 9, 8], 4)"
    by code_simp
  from unroll_equivalence[OF h, of example_array 5 5 5] h e1 e2 show ?thesis by blast
qed

text \<open>
  C5.  For a register and a pivot register of \<open>N\<close> lanes each (\<open>N \<le> 32\<close>, so that the
  32-bit population count sees the whole mask) and store cursors at least \<open>N\<close> apart,
  \<open>partition_vec\<close> returns the number of lanes that are greater or equal to their pivot
  lane, writes the lanes below the pivot in ascending lane order from \<open>left\<close> on and the
  other lanes in ascending lane order so that they end at \<open>right\<close>; the two regions are
  disjoint, hold \<open>N\<close> elements together, and no other slot changes.
\<close>

theorem partition_vec_spec:
  fixes curr_vec pivot_vec :: "'a::linorder zmm"
  assumes len: "length curr_vec = N" "length pivot_vec = N" and N: "N \<le> 32"
    and room: "int N \<le> right - left"
    and pv: "partition_vec arr left right curr_vec pivot_vec smallest_vec biggest_vec
               = (arr', smallest_vec', biggest_vec', count_ge)"
  shows "count_ge = int (length (lanes_ge curr_vec pivot_vec))
       \<and> loadu (length (lanes_lt curr_vec pivot_vec)) arr' left = lanes_lt curr_vec pivot_vec
       \<and> loadu (length (lanes_ge curr_vec pivot_vec)) arr' (right - count_ge) = lanes_ge curr_vec pivot_vec
       \<and> length (lanes_lt curr_vec pivot_vec) + length (lanes_ge curr_vec pivot_vec) = N
       \<and> left + int (length (lanes_lt curr_vec pivot_vec)) \<le> right - count_ge
       \<and> (\<forall>i. i < left \<or> (left + int (length (lanes_lt curr_vec pivot_vec)) \<le> i \<and> i < right - count_ge)
               \<or> right \<le> i \<longrightarrow> arr' i = arr i)"
proof -
  let ?lo = "lanes_lt curr_vec pivot_vec" and ?hi = "lanes_ge curr_vec pivot_vec"
  have eq: "partition_vec arr left right curr_vec pivot_vec smallest_vec biggest_vec =
      (write_seq (write_seq arr left ?lo) (right - int (length ?hi)) ?hi,
       vmin curr_vec smallest_vec, vmax curr_vec biggest_vec, int (length ?hi))"
    using len N by (intro partition_vec_eq) simp_all
  from eq pv have k: "count_ge = int (length ?hi)"
    and arr': "arr' = write_seq (write_seq arr left ?lo) (right - int (length ?hi)) ?hi"
    by simp_all
  have sum: "length ?lo + length ?hi = N"
    using length_lanes[of curr_vec pivot_vec] len by simp
  have disj: "left + int (length ?lo) \<le> right - count_ge"
    using sum room k by linarith
  have lo: "loadu (length ?lo) arr' left = ?lo"
  proof -
    have "loadu (length ?lo) arr' left = loadu (length ?lo) (write_seq arr left ?lo) left"
      unfolding arr' using disj k by (intro loadu_cong write_seq_outside) linarith
    then show ?thesis by (simp add: loadu_write_seq)
  qed
  have hi: "loadu (length ?hi) arr' (right - count_ge) = ?hi"
    unfolding arr' k by (rule loadu_write_seq)
  have frame: "arr' i = arr i"
    if "i < left \<or> (left + int (length ?lo) \<le> i \<and> i < right - count_ge) \<or> right \<le> i" for i
  proof -
    have "arr' i = write_seq arr left ?lo i"
      unfolding arr' using that disj k by (intro write_seq_outside) linarith
    also have "\<dots> = arr i"
      using that disj k by (intro write_seq_outside) linarith
    finally show ?thesis .
  qed
  show ?thesis using k lo hi sum disj frame by blast
qed

theorem partition_vec_spec_witness:
  "length [5, 3, 8, 1 :: int] = 4 \<and> length [5, 5, 5, 5 :: int] = 4 \<and> (4 :: nat) \<le> 32
   \<and> int 4 \<le> 6 - 0
   \<and> snd (snd (snd (partition_vec (\<lambda>_. 0) 0 6 [5, 3, 8, 1 :: int] [5, 5, 5, 5] [9, 9, 9, 9] [0, 0, 0, 0]))) = 2
   \<and> map (fst (partition_vec (\<lambda>_. 0) 0 6 [5, 3, 8, 1 :: int] [5, 5, 5, 5] [9, 9, 9, 9] [0, 0, 0, 0]))
        [0, 1, 2, 3, 4, 5] = [3, 1, 0, 0, 5, 8]"
proof -
  let ?r = "partition_vec (\<lambda>_. 0) 0 6 [5, 3, 8, 1 :: int] [5, 5, 5, 5] [9, 9, 9, 9] [0, 0, 0, 0]"
  have h: "length [5, 3, 8, 1 :: int] = 4" "length [5, 5, 5, 5 :: int] = 4" "(4 :: nat) \<le> 32"
    "int 4 \<le> 6 - 0" by simp_all
  have e: "?r = (fst ?r, fst (snd ?r), fst (snd (snd ?r)), snd (snd (snd ?r)))" by simp
  have lt: "lanes_lt [5, 3, 8, 1 :: int] [5, 5, 5, 5] = [3, 1]"
    and ge: "lanes_ge [5, 3, 8, 1 :: int] [5, 5, 5, 5] = [5, 8]"
    by (simp_all add: lanes_lt_def lanes_ge_def)
  note th = partition_vec_spec[OF h e]
  from th have "snd (snd (snd ?r)) = int (length (lanes_ge [5, 3, 8, 1 :: int] [5, 5, 5, 5]))"
    by blast
  then have c: "snd (snd (snd ?r)) = 2" unfolding ge by simp
  from th have "loadu (length (lanes_lt [5, 3, 8, 1 :: int] [5, 5, 5, 5])) (fst ?r) 0
                  = lanes_lt [5, 3, 8, 1 :: int] [5, 5, 5, 5]"
    by blast
  then have lo: "loadu 2 (fst ?r) 0 = [3, 1]" unfolding lt by (simp add: numeral_2_eq_2)
  from th have "loadu (length (lanes_ge [5, 3, 8, 1 :: int] [5, 5, 5, 5])) (fst ?r) (6 - snd (snd (snd ?r)))
                  = lanes_ge [5, 3, 8, 1 :: int] [5, 5, 5, 5]"
    by blast
  then have hi: "loadu 2 (fst ?r) 4 = [5, 8]" unfolding ge c by (simp add: numeral_2_eq_2)
  from th have "\<forall>i. i < 0 \<or> (0 + int (length (lanes_lt [5, 3, 8, 1 :: int] [5, 5, 5, 5])) \<le> i
                    \<and> i < 6 - snd (snd (snd ?r))) \<or> 6 \<le> i \<longrightarrow> fst ?r i = (\<lambda>_. 0) i"
    by blast
  then have fr: "\<And>i. 2 \<le> i \<and> i < 4 \<Longrightarrow> fst ?r i = 0" unfolding lt c by simp
  from lo have "fst ?r 0 = 3" "fst ?r 1 = 1" by (simp_all add: loadu_def upt_rec)
  moreover from hi have "fst ?r 4 = 5" "fst ?r 5 = 8" by (simp_all add: loadu_def upt_rec)
  moreover from fr[of 2] fr[of 3] have "fst ?r 2 = 0" "fst ?r 3 = 0" by simp_all
  ultimately show ?thesis using c by simp
qed

text \<open>
  C6.  The main loop of \<open>partition_avx512\<close> is entered when the scalar phase leaves at
  least two registers, that is \<open>m = (r1 - l1) div N \<ge> 2\<close>, and then runs \<open>m - 2\<close> times
  (C8).  In every state at the head of the loop, so before the first and after each
  iteration, the low store cursor has not passed the left load cursor, the right load
  cursor has not passed the high store cursor, and the slots between the load cursors
  still hold what they held on entry: no store has touched an element that is not loaded
  yet.  In the unrolled loop, entered when the range is longer than \<open>2 * K * N\<close>, the same
  holds inside every iteration after each of the \<open>K\<close> stores of the batch (\<open>ii\<close> registers
  stored, for every \<open>ii \<le> K\<close>), against the load cursors as the load of this iteration
  left them.
\<close>

theorem store_cursors_never_cross:
  fixes p :: "'a::linorder"
  assumes N: "0 < N" "N \<le> 32" and K: "0 < K" and lr: "left \<le> right"
    and sl1: "scalar_loop (nat (c_rem (right - left) (int N))) p (arr, left, right, sm, bg)
                = (arr1, l1, r1, sm1, bg1)"
    and sl2: "scalar_loop (nat (c_rem (right - left) (int K * int N))) p (arr, left, right, sm, bg)
                = (arr2, l2, r2, sm2, bg2)"
  shows "(l1 \<noteq> r1 \<and> r1 - l1 \<noteq> int N \<longrightarrow>
          (\<forall>j \<le> nat ((r1 - l1) div int N) - 2.
             let t = (loop_body N (set1 N p) ^^ j)
                       \<lparr>c_arr = arr1, c_left = l1 + int N, c_right = r1 - int N,
                        c_l_store = l1, c_r_store = r1 - int N,
                        c_min_vec = set1 N sm1, c_max_vec = set1 N bg1\<rparr>
             in c_l_store t \<le> c_left t \<and> c_right t \<le> c_r_store t + int N
                \<and> (\<forall>i. c_left t \<le> i \<and> i < c_right t \<longrightarrow> c_arr t i = arr1 i)))
       \<and> (\<not> right - left \<le> 2 * int K * int N \<longrightarrow>
          (\<forall>j < nat ((r2 - l2) div (int K * int N)) - 2. \<forall>ii \<le> K.
             case load_batch N K ((loop_body_unrolled N K (set1 N p) ^^ j)
                       \<lparr>c_arr = arr2, c_left = l2 + int K * int N, c_right = r2 - int K * int N,
                        c_l_store = l2, c_r_store = r2 - int N,
                        c_min_vec = set1 N sm2, c_max_vec = set1 N bg2\<rparr>) of
               (t', vecs) \<Rightarrow>
                 let u = partition_vecs N (set1 N p) (take ii vecs) t'
                 in c_l_store u \<le> c_left t' \<and> c_right t' \<le> c_r_store u + int N
                    \<and> (\<forall>i. c_left t' \<le> i \<and> i < c_right t' \<longrightarrow> c_arr u i = arr2 i)))"
proof (intro conjI impI allI)
  fix j
  assume ne: "l1 \<noteq> r1 \<and> r1 - l1 \<noteq> int N" and j: "j \<le> nat ((r1 - l1) div int N) - 2"
  have n: "0 < int N" using N by simp
  note f = scalar_phase_facts[OF n lr sl1]
  define m where "m = nat ((r1 - l1) div int N)"
  have q: "0 \<le> (r1 - l1) div int N" using f(3) n by (simp add: pos_imp_zdiv_nonneg_iff)
  have lm: "r1 - l1 = int m * int N" using f(4) q by (simp add: m_def)
  have "m \<noteq> 0" using lm ne by (cases "m = 0") simp_all
  moreover have "m \<noteq> 1" using lm ne by (cases "m = 1") simp_all
  ultimately have m2: "2 \<le> m" by simp
  from nonunrolled_iterates[OF N lm m2 j[folded m_def], of p arr1 sm1 bg1]
  show "let t = (loop_body N (set1 N p) ^^ j)
                       \<lparr>c_arr = arr1, c_left = l1 + int N, c_right = r1 - int N,
                        c_l_store = l1, c_r_store = r1 - int N,
                        c_min_vec = set1 N sm1, c_max_vec = set1 N bg1\<rparr>
             in c_l_store t \<le> c_left t \<and> c_right t \<le> c_r_store t + int N
                \<and> (\<forall>i. c_left t \<le> i \<and> i < c_right t \<longrightarrow> c_arr t i = arr1 i)"
    by (simp add: Let_def)
next
  fix j ii
  assume big: "\<not> right - left \<le> 2 * int K * int N"
    and j: "j < nat ((r2 - l2) div (int K * int N)) - 2" and ii: "ii \<le> K"
  let ?kn = "int K * int N"
  have kn: "0 < ?kn" using N K by simp
  note f = scalar_phase_facts[OF kn lr sl2]
  define m where "m = nat ((r2 - l2) div ?kn)"
  have q: "0 \<le> (r2 - l2) div ?kn" using f(3) kn by (simp add: pos_imp_zdiv_nonneg_iff)
  have lm: "r2 - l2 = int m * ?kn" using f(4) q by (simp add: m_def)
  have m2: "2 \<le> m" using j unfolding m_def by simp
  let ?s0 = "\<lparr>c_arr = arr2, c_left = l2 + int K * int N, c_right = r2 - int K * int N,
                        c_l_store = l2, c_r_store = r2 - int N,
                        c_min_vec = set1 N sm2, c_max_vec = set1 N bg2\<rparr>"
  obtain t' vecs where lb: "load_batch N K ((loop_body_unrolled N K (set1 N p) ^^ j) ?s0) = (t', vecs)"
    by (cases "load_batch N K ((loop_body_unrolled N K (set1 N p) ^^ j) ?s0)") auto
  from unrolled_stores[OF N K lm m2 j[folded m_def] lb ii]
  show "case load_batch N K ((loop_body_unrolled N K (set1 N p) ^^ j) ?s0) of
               (t', vecs) \<Rightarrow>
                 let u = partition_vecs N (set1 N p) (take ii vecs) t'
                 in c_l_store u \<le> c_left t' \<and> c_right t' \<le> c_r_store u + int N
                    \<and> (\<forall>i. c_left t' \<le> i \<and> i < c_right t' \<longrightarrow> c_arr u i = arr2 i)"
    unfolding lb prod.case by (simp add: Let_def)
qed

theorem store_cursors_never_cross_witness:
  "(0 :: nat) < 2 \<and> (2 :: nat) \<le> 32 \<and> (0 :: nat) < 1 \<and> (0 :: int) \<le> 8
   \<and> scalar_loop (nat (c_rem (8 - 0) (int 2))) 5 (example_array, 0, 8, 5, 5) = (example_array, 0, 8, 5, 5)
   \<and> scalar_loop (nat (c_rem (8 - 0) (int 1 * int 2))) 5 (example_array, 0, 8, 5, 5) = (example_array, 0, 8, 5, 5)
   \<and> (let t = (loop_body 2 (set1 2 5) ^^ 1)
                       \<lparr>c_arr = example_array, c_left = 0 + int 2, c_right = 8 - int 2,
                        c_l_store = 0, c_r_store = 8 - int 2,
                        c_min_vec = set1 2 5, c_max_vec = set1 2 5\<rparr>
       in c_l_store t \<le> c_left t \<and> c_right t \<le> c_r_store t + int 2)
   \<and> (let t = (loop_body 2 (set1 2 5) ^^ 1)
                       \<lparr>c_arr = example_array, c_left = 0 + int 2, c_right = 8 - int 2,
                        c_l_store = 0, c_r_store = 8 - int 2,
                        c_min_vec = set1 2 5, c_max_vec = set1 2 5\<rparr>
       in (c_l_store t, c_left t, c_right t, c_r_store t + int 2)) = (1, 4, 6, 7)"
proof -
  have h: "(0 :: nat) < 2" "(2 :: nat) \<le> 32" "(0 :: nat) < 1" "(0 :: int) \<le> 8" by simp_all
  have s1: "scalar_loop (nat (c_rem (8 - 0) (int 2))) 5 (example_array, 0, 8, 5, 5) = (example_array, 0, 8, 5, 5)"
    by (simp add: c_rem_def smod_int_alt_def)
  have s2: "scalar_loop (nat (c_rem (8 - 0) (int 1 * int 2))) 5 (example_array, 0, 8, 5, 5) = (example_array, 0, 8, 5, 5)"
    by (simp add: c_rem_def smod_int_alt_def)
  note t = conjunct1[OF store_cursors_never_cross[OF h s1 s2]]
  have ne: "(0 :: int) \<noteq> 8 \<and> (8 :: int) - 0 \<noteq> int 2" by simp
  have j: "(1 :: nat) \<le> nat ((8 - 0) div int 2) - 2" by simp
  from t[rule_format, OF ne j]
  have a: "let t = (loop_body 2 (set1 2 5) ^^ 1)
                       \<lparr>c_arr = example_array, c_left = 0 + int 2, c_right = 8 - int 2,
                        c_l_store = 0, c_r_store = 8 - int 2,
                        c_min_vec = set1 2 5, c_max_vec = set1 2 5\<rparr>
       in c_l_store t \<le> c_left t \<and> c_right t \<le> c_r_store t + int 2"
    by (simp add: Let_def)
  have b: "(let t = (loop_body 2 (set1 2 5) ^^ 1)
                       \<lparr>c_arr = example_array, c_left = 0 + int 2, c_right = 8 - int 2,
                        c_l_store = 0, c_r_store = 8 - int 2,
                        c_min_vec = set1 2 5, c_max_vec = set1 2 5\<rparr>
       in (c_l_store t, c_left t, c_right t, c_r_store t + int 2)) = (1, 4, 6, 7)"
    by code_simp
  show ?thesis by (intro conjI h s1 s2 a b)
qed

text \<open>
  C7.  \<open>avx512_partial_qsort(arr, k, arrsize)\<close> calls the selection for index \<open>k - 1\<close> and
  then the sort on the first \<open>k - 1\<close> elements.  For every selection and sort that meet
  their contracts and every rank \<open>1 \<le> k \<le> arrsize\<close>, the first \<open>k\<close> positions are then in
  ascending order and hold the \<open>k\<close> smallest elements: the first \<open>arrsize\<close> elements are a
  permutation of what they were, no element of the first \<open>k\<close> is above an element of the
  rest, and nothing beyond \<open>arrsize\<close> changes.  The sort touches the prefix only: from
  index \<open>k - 1\<close> on the result is what the selection left.
\<close>

theorem partial_qsort_sorts_prefix:
  fixes arr :: "'a::linorder mem"
  assumes sel: "qselect_contract avx512_qselect" and qs: "qsort_contract avx512_qsort"
    and k: "1 \<le> k" "k \<le> arrsize"
  shows "sorted (loadu (nat k) (avx512_partial_qsort avx512_qselect avx512_qsort arr k arrsize) 0)
       \<and> mrange (avx512_partial_qsort avx512_qselect avx512_qsort arr k arrsize) 0 arrsize
           = mrange arr 0 arrsize
       \<and> (\<forall>i j. 0 \<le> i \<and> i < k \<and> k \<le> j \<and> j < arrsize \<longrightarrow>
             avx512_partial_qsort avx512_qselect avx512_qsort arr k arrsize i
               \<le> avx512_partial_qsort avx512_qselect avx512_qsort arr k arrsize j)
       \<and> (\<forall>i. i < 0 \<or> arrsize \<le> i \<longrightarrow>
             avx512_partial_qsort avx512_qselect avx512_qsort arr k arrsize i = arr i)
       \<and> (\<forall>i. k - 1 \<le> i \<longrightarrow>
             avx512_partial_qsort avx512_qselect avx512_qsort arr k arrsize i
               = avx512_qselect arr (k - 1) arrsize i)"
proof -
  define a1 where "a1 = avx512_qselect arr (k - 1) arrsize"
  define a2 where "a2 = avx512_qsort a1 (k - 1)"
  have res: "avx512_partial_qsort avx512_qselect avx512_qsort arr k arrsize = a2"
    by (simp add: avx512_partial_qsort_def a1_def a2_def Let_def)
  have kk: "0 \<le> k - 1 \<and> k - 1 < arrsize" using k by simp
  from sel kk have s1: "mrange a1 0 arrsize = mrange arr 0 arrsize"
    and s2: "\<And>i. 0 \<le> i \<and> i < k - 1 \<Longrightarrow> a1 i \<le> a1 (k - 1)"
    and s3: "\<And>j. k - 1 < j \<and> j < arrsize \<Longrightarrow> a1 (k - 1) \<le> a1 j"
    and s4: "\<And>i. i < 0 \<or> arrsize \<le> i \<Longrightarrow> a1 i = arr i"
    unfolding qselect_contract_def a1_def by blast+
  from qs kk have q1: "sorted (loadu (nat (k - 1)) a2 0)"
    and q2: "mrange a2 0 (k - 1) = mrange a1 0 (k - 1)"
    and q3: "\<And>i. i < 0 \<or> k - 1 \<le> i \<Longrightarrow> a2 i = a1 i"
    unfolding qsort_contract_def a2_def by blast+
  have pre: "a2 i \<le> a1 (k - 1)" if "0 \<le> i \<and> i < k" for i
  proof (cases "i = k - 1")
    case True
    then show ?thesis using q3[of i] by simp
  next
    case False
    then have "a2 i \<in># mrange a2 0 (k - 1)" using that by (intro mrange_memI) simp_all
    then have "a2 i \<in># mrange a1 0 (k - 1)" unfolding q2 .
    then show ?thesis using s2 unfolding in_mrange by auto
  qed
  have srt: "sorted (loadu (nat k) a2 0)"
  proof -
    have nk: "nat k = Suc (nat (k - 1))" using k by simp
    have "\<forall>x\<in>set (loadu (nat (k - 1)) a2 0). x \<le> a2 (k - 1)"
    proof
      fix x assume "x \<in> set (loadu (nat (k - 1)) a2 0)"
      then have "x \<in># mrange a2 0 (k - 1)" by (simp add: mrange_def)
      then obtain i where "0 \<le> i" "i < k - 1" "x = a2 i" unfolding in_mrange by auto
      then show "x \<le> a2 (k - 1)" using pre[of i] q3[of "k - 1"] by simp
    qed
    then show ?thesis
      unfolding nk loadu_Suc using q1 kk by (simp add: sorted_append)
  qed
  have ms: "mrange a2 0 arrsize = mrange arr 0 arrsize"
  proof -
    have "mrange a2 0 arrsize = mrange a2 0 (k - 1) + mrange a2 (k - 1) arrsize"
      using kk by (intro mrange_split) simp_all
    also have "mrange a2 (k - 1) arrsize = mrange a1 (k - 1) arrsize"
      by (rule mrange_cong) (simp add: q3)
    also have "mrange a2 0 (k - 1) + mrange a1 (k - 1) arrsize = mrange a1 0 arrsize"
      unfolding q2 using kk by (intro mrange_split[symmetric]) simp_all
    finally show ?thesis using s1 by simp
  qed
  have ord: "a2 i \<le> a2 j" if "0 \<le> i \<and> i < k \<and> k \<le> j \<and> j < arrsize" for i j
  proof -
    have "a2 i \<le> a1 (k - 1)" using that by (intro pre) simp
    also have "a1 (k - 1) \<le> a1 j" using that by (intro s3) simp
    also have "a1 j = a2 j" using that q3[of j] by simp
    finally show ?thesis .
  qed
  have fr: "a2 i = arr i" if "i < 0 \<or> arrsize \<le> i" for i
    using that q3[of i] s4[of i] k by auto
  have keep: "a2 i = avx512_qselect arr (k - 1) arrsize i" if "k - 1 \<le> i" for i
    using that q3[of i] unfolding a1_def by simp
  show ?thesis unfolding res using srt ms ord fr keep by blast
qed

theorem partial_qsort_sorts_prefix_witness:
  "qselect_contract (ref_qselect :: int mem \<Rightarrow> int \<Rightarrow> int \<Rightarrow> int mem)
   \<and> qsort_contract (ref_qsort :: int mem \<Rightarrow> int \<Rightarrow> int mem)
   \<and> (1 :: int) \<le> 3 \<and> (3 :: int) \<le> 8
   \<and> sorted (loadu (nat 3) (avx512_partial_qsort ref_qselect ref_qsort example_array 3 8) 0)
   \<and> mrange (avx512_partial_qsort ref_qselect ref_qsort example_array 3 8) 0 8 = mrange example_array 0 8
   \<and> map (avx512_partial_qsort ref_qselect ref_qsort example_array 3 8) [0, 1, 2] = [1, 2, 3]"
proof -
  have h: "(1 :: int) \<le> 3" "(3 :: int) \<le> 8" by simp_all
  note t = partial_qsort_sorts_prefix[OF ref_qselect_contract ref_qsort_contract h, of example_array]
  have e: "map (avx512_partial_qsort ref_qselect ref_qsort example_array 3 8) [0, 1, 2] = [1, 2, 3]"
    by code_simp
  from t have a: "sorted (loadu (nat 3) (avx512_partial_qsort ref_qselect ref_qsort example_array 3 8) 0)"
    by (rule conjunct1)
  from t have b: "mrange (avx512_partial_qsort ref_qselect ref_qsort example_array 3 8) 0 8 = mrange example_array 0 8"
    by (rule conjunct1[OF conjunct2])
  show ?thesis by (intro conjI ref_qselect_contract ref_qsort_contract h a b e)
qed

text \<open>
  C8, amended.  On a valid range both functions return, and the functions with a history
  return the same result.  In \<open>partition_avx512\<close> the scalar remainder loop runs
  \<open>(right - left) mod N\<close> times; the range length after its iterations is
  \<open>right - left - 1\<close>, \<open>right - left - 2\<close>, and so on, so each iteration shrinks the range
  by exactly one element, and the length it leaves is a multiple of \<open>N\<close>.  The main loop
  runs \<open>n = (right - left) div N - 2\<close> times (not at all when that is not positive); the
  load window after its iterations is \<open>(n - 1) * N\<close>, \<open>(n - 2) * N\<close>, down to \<open>0\<close>: each
  iteration shrinks it by one register and the loop ends with the load cursors equal.
  \<open>partition_avx512_unrolled\<close> does the same with \<open>K * N\<close> in place of \<open>N\<close> when
  \<open>right - left > 2 * K * N\<close>.  On a shorter range it hands the call to
  \<open>partition_avx512\<close>, and its loops run as there, with \<open>N\<close>: the remainder is then taken
  modulo \<open>N\<close>, not modulo \<open>K * N\<close>.
\<close>

theorem partition_terminates:
  fixes p :: "'a::linorder"
  assumes N: "0 < N" "N \<le> 32" and K: "0 < K" and lr: "left \<le> right"
  shows "(\<exists>res hs hm.
            partition_avx512_log N arr left right p sm bg = Some (res, hs, hm)
          \<and> partition_avx512 N arr left right p sm bg = Some res
          \<and> hs = map (\<lambda>j. right - left - int j) [1..<Suc (nat ((right - left) mod int N))]
          \<and> int N dvd last ((right - left) # hs)
          \<and> hm = map (\<lambda>j. int (nat ((right - left) div int N) - 2 - j) * int N)
                    [1..<Suc (nat ((right - left) div int N) - 2)]
          \<and> last (0 # hm) = 0)
       \<and> (\<exists>res hs hm.
            partition_avx512_unrolled_log N K arr left right p sm bg = Some (res, hs, hm)
          \<and> partition_avx512_unrolled N K arr left right p sm bg = Some res
          \<and> (let d = (if right - left \<le> 2 * int K * int N then int N else int K * int N)
             in hs = map (\<lambda>j. right - left - int j) [1..<Suc (nat ((right - left) mod d))]
              \<and> d dvd last ((right - left) # hs)
              \<and> hm = map (\<lambda>j. int (nat ((right - left) div d) - 2 - j) * d)
                        [1..<Suc (nat ((right - left) div d) - 2)]
              \<and> last (0 # hm) = 0))"
proof (rule conjI)
  have n: "0 < int N" and kn: "0 < int K * int N" using N K by simp_all
  have len: "0 \<le> right - left" using lr by simp
  obtain r1 where r1: "partition_avx512 N arr left right p sm bg = Some r1"
    using partition_avx512_correct[OF N lr, of arr p sm bg] by blast
  let ?hs = "map (\<lambda>j. right - left - int j) [1..<Suc (nat ((right - left) mod int N))]"
  let ?hm = "map (\<lambda>j. int (nat ((right - left) div int N) - 2 - j) * int N)
               [1..<Suc (nat ((right - left) div int N) - 2)]"
  have l1: "partition_avx512_log N arr left right p sm bg = Some (r1, ?hs, ?hm)"
    unfolding partition_avx512_log_eq[OF N lr] r1 by simp
  have a1: "int N dvd last ((right - left) # ?hs)"
    unfolding last_range_log by (rule remaining_aligned[OF n len])
  have z1: "last (0 # ?hm) = 0" by (rule last_window_log)
  show A: "\<exists>res hs hm.
            partition_avx512_log N arr left right p sm bg = Some (res, hs, hm)
          \<and> partition_avx512 N arr left right p sm bg = Some res
          \<and> hs = ?hs \<and> int N dvd last ((right - left) # hs) \<and> hm = ?hm \<and> last (0 # hm) = 0"
    using l1 r1 a1 z1 by blast
  obtain r2 where r2: "partition_avx512_unrolled N K arr left right p sm bg = Some r2"
    using partition_avx512_unrolled_correct[OF N K lr, of arr p sm bg] by blast
  define d where "d = (if right - left \<le> 2 * int K * int N then int N else int K * int N)"
  have d: "0 < d" unfolding d_def using n kn by simp
  let ?hs2 = "map (\<lambda>j. right - left - int j) [1..<Suc (nat ((right - left) mod d))]"
  let ?hm2 = "map (\<lambda>j. int (nat ((right - left) div d) - 2 - j) * d)
               [1..<Suc (nat ((right - left) div d) - 2)]"
  have l2: "partition_avx512_unrolled_log N K arr left right p sm bg = Some (r2, ?hs2, ?hm2)"
  proof (cases "right - left \<le> 2 * int K * int N")
    case True
    then have "partition_avx512_unrolled_log N K arr left right p sm bg
                 = partition_avx512_log N arr left right p sm bg"
      and "partition_avx512_unrolled N K arr left right p sm bg
             = partition_avx512 N arr left right p sm bg"
      by (simp_all add: partition_avx512_unrolled_log_def partition_avx512_unrolled_def)
    then show ?thesis using l1 r1 r2 True unfolding d_def by simp
  next
    case False
    show ?thesis
      unfolding partition_avx512_unrolled_log_eq[OF N K lr False] r2 d_def using False by simp
  qed
  have a2: "d dvd last ((right - left) # ?hs2)"
    unfolding last_range_log by (rule remaining_aligned[OF d len])
  have z2: "last (0 # ?hm2) = 0" by (rule last_window_log)
  show "\<exists>res hs hm.
            partition_avx512_unrolled_log N K arr left right p sm bg = Some (res, hs, hm)
          \<and> partition_avx512_unrolled N K arr left right p sm bg = Some res
          \<and> (let d = (if right - left \<le> 2 * int K * int N then int N else int K * int N)
             in hs = map (\<lambda>j. right - left - int j) [1..<Suc (nat ((right - left) mod d))]
              \<and> d dvd last ((right - left) # hs)
              \<and> hm = map (\<lambda>j. int (nat ((right - left) div d) - 2 - j) * d)
                        [1..<Suc (nat ((right - left) div d) - 2)]
              \<and> last (0 # hm) = 0)"
    unfolding Let_def d_def[symmetric] using l2 r2 a2 z2 by blast
qed

theorem partition_terminates_witness:
  "(0 :: nat) < 1 \<and> (1 :: nat) \<le> 32 \<and> (0 :: nat) < 2 \<and> (0 :: int) \<le> 7
   \<and> (\<exists>res. partition_avx512_log 1 example_array 0 7 5 5 5 = Some (res, [], [4, 3, 2, 1, 0])
            \<and> partition_avx512 1 example_array 0 7 5 5 5 = Some res)
   \<and> (\<exists>res. partition_avx512_unrolled_log 1 2 example_array 0 7 5 5 5 = Some (res, [6], [0])
            \<and> partition_avx512_unrolled 1 2 example_array 0 7 5 5 5 = Some res)
   \<and> map_option snd (partition_avx512_log 1 example_array 0 7 5 5 5) = Some ([], [4, 3, 2, 1, 0])
   \<and> map_option snd (partition_avx512_unrolled_log 1 2 example_array 0 7 5 5 5) = Some ([6], [0])
   \<and> (\<exists>res. partition_avx512_unrolled_log 2 2 example_array 0 7 5 5 5 = Some (res, [6], [0])
            \<and> partition_avx512_unrolled 2 2 example_array 0 7 5 5 5 = Some res)"
proof -
  have h: "(0 :: nat) < 1" "(1 :: nat) \<le> 32" "(0 :: nat) < 2" "(0 :: int) \<le> 7" by simp_all
  note t = partition_terminates[OF h, where arr = example_array and p = 5 and sm = 5 and bg = 5]
  have e1: "map (\<lambda>j. (7 :: int) - 0 - int j) [1..<Suc (nat ((7 - 0) mod int 1))] = []"
    by simp
  have e2: "map (\<lambda>j. int (nat ((7 - 0) div int 1) - 2 - j) * int 1)
              [1..<Suc (nat ((7 - 0) div int 1) - 2)] = [4, 3, 2, 1, 0]"
    by code_simp
  have e3: "(let d = (if (7 :: int) - 0 \<le> 2 * int 2 * int 1 then int 1 else int 2 * int 1)
            in map (\<lambda>j. 7 - 0 - int j) [1..<Suc (nat ((7 - 0) mod d))]) = [6]"
    by code_simp
  have e4: "(let d = (if (7 :: int) - 0 \<le> 2 * int 2 * int 1 then int 1 else int 2 * int 1)
            in map (\<lambda>j. int (nat ((7 - 0) div d) - 2 - j) * d)
                 [1..<Suc (nat ((7 - 0) div d) - 2)]) = [0]"
    by code_simp
  from t obtain r1 hs1 hm1 where
    x1: "partition_avx512_log 1 example_array 0 7 5 5 5 = Some (r1, hs1, hm1)"
        "partition_avx512 1 example_array 0 7 5 5 5 = Some r1"
        "hs1 = map (\<lambda>j. (7 :: int) - 0 - int j) [1..<Suc (nat ((7 - 0) mod int 1))]"
        "hm1 = map (\<lambda>j. int (nat ((7 - 0) div int 1) - 2 - j) * int 1)
                 [1..<Suc (nat ((7 - 0) div int 1) - 2)]"
    by blast
  have a: "\<exists>res. partition_avx512_log 1 example_array 0 7 5 5 5 = Some (res, [], [4, 3, 2, 1, 0])
            \<and> partition_avx512 1 example_array 0 7 5 5 5 = Some res"
    using x1(1,2) unfolding x1(3,4) e1 e2 by blast
  from t obtain r2 hs2 hm2 where
    x2: "partition_avx512_unrolled_log 1 2 example_array 0 7 5 5 5 = Some (r2, hs2, hm2)"
        "partition_avx512_unrolled 1 2 example_array 0 7 5 5 5 = Some r2"
        "hs2 = (let d = (if (7 :: int) - 0 \<le> 2 * int 2 * int 1 then int 1 else int 2 * int 1)
                in map (\<lambda>j. 7 - 0 - int j) [1..<Suc (nat ((7 - 0) mod d))])"
        "hm2 = (let d = (if (7 :: int) - 0 \<le> 2 * int 2 * int 1 then int 1 else int 2 * int 1)
                in map (\<lambda>j. int (nat ((7 - 0) div d) - 2 - j) * d)
                     [1..<Suc (nat ((7 - 0) div d) - 2)])"
    unfolding Let_def by blast
  have b: "\<exists>res. partition_avx512_unrolled_log 1 2 example_array 0 7 5 5 5 = Some (res, [6], [0])
            \<and> partition_avx512_unrolled 1 2 example_array 0 7 5 5 5 = Some res"
    using x2(1,2) unfolding x2(3,4) e3 e4 by blast
  have c: "map_option snd (partition_avx512_log 1 example_array 0 7 5 5 5) = Some ([], [4, 3, 2, 1, 0])"
    by code_simp
  have d: "map_option snd (partition_avx512_unrolled_log 1 2 example_array 0 7 5 5 5) = Some ([6], [0])"
    by code_simp
  have h': "(0 :: nat) < 2" "(2 :: nat) \<le> 32" "(0 :: nat) < 2" "(0 :: int) \<le> 7" by simp_all
  note t' = partition_terminates[OF h', where arr = example_array and p = 5 and sm = 5 and bg = 5]
  have e5: "(let d = (if (7 :: int) - 0 \<le> 2 * int 2 * int 2 then int 2 else int 2 * int 2)
            in map (\<lambda>j. 7 - 0 - int j) [1..<Suc (nat ((7 - 0) mod d))]) = [6]"
    by code_simp
  have e6: "(let d = (if (7 :: int) - 0 \<le> 2 * int 2 * int 2 then int 2 else int 2 * int 2)
            in map (\<lambda>j. int (nat ((7 - 0) div d) - 2 - j) * d)
                 [1..<Suc (nat ((7 - 0) div d) - 2)]) = [0]"
    by code_simp
  from t' obtain r3 hs3 hm3 where
    x3: "partition_avx512_unrolled_log 2 2 example_array 0 7 5 5 5 = Some (r3, hs3, hm3)"
        "partition_avx512_unrolled 2 2 example_array 0 7 5 5 5 = Some r3"
        "hs3 = (let d = (if (7 :: int) - 0 \<le> 2 * int 2 * int 2 then int 2 else int 2 * int 2)
                in map (\<lambda>j. 7 - 0 - int j) [1..<Suc (nat ((7 - 0) mod d))])"
        "hm3 = (let d = (if (7 :: int) - 0 \<le> 2 * int 2 * int 2 then int 2 else int 2 * int 2)
                in map (\<lambda>j. int (nat ((7 - 0) div d) - 2 - j) * d)
                     [1..<Suc (nat ((7 - 0) div d) - 2)])"
    unfolding Let_def by blast
  have g: "\<exists>res. partition_avx512_unrolled_log 2 2 example_array 0 7 5 5 5 = Some (res, [6], [0])
            \<and> partition_avx512_unrolled 2 2 example_array 0 7 5 5 5 = Some res"
    using x3(1,2) unfolding x3(3,4) e5 e6 by blast
  show ?thesis by (intro conjI h a b c d g)
qed

text \<open>
  C8 as written gives the scalar loop of \<open>partition_avx512_unrolled\<close>
  \<open>(right - left) mod (K * N)\<close> iterations on every valid range.  With \<open>N = 2\<close> and
  \<open>K = 2\<close> on the seven elements of \<open>[0, 7)\<close> that would be \<open>7 mod 4 = 3\<close> iterations; the
  range is not longer than \<open>2 * K * N = 8\<close>, the call is the call to \<open>partition_avx512\<close>,
  and the scalar loop runs \<open>7 mod 2 = 1\<close> time.
\<close>

theorem unrolled_delegates_counterexample:
  "(0 :: nat) < 2 \<and> (2 :: nat) \<le> 32 \<and> (0 :: int) \<le> 7
   \<and> partition_avx512_unrolled 2 2 example_array 0 7 5 5 5 = partition_avx512 2 example_array 0 7 5 5 5
   \<and> map_option (length \<circ> fst \<circ> snd) (partition_avx512_unrolled_log 2 2 example_array 0 7 5 5 5) = Some 1
   \<and> nat ((7 - 0) mod (int 2 * int 2)) = 3
   \<and> map_option (length \<circ> fst \<circ> snd) (partition_avx512_unrolled_log 2 2 example_array 0 7 5 5 5)
       \<noteq> Some (nat ((7 - 0) mod (int 2 * int 2)))"
proof -
  have a: "partition_avx512_unrolled 2 2 example_array 0 7 5 5 5 = partition_avx512 2 example_array 0 7 5 5 5"
    by (simp add: partition_avx512_unrolled_def)
  have b: "map_option (length \<circ> fst \<circ> snd) (partition_avx512_unrolled_log 2 2 example_array 0 7 5 5 5) = Some 1"
    by code_simp
  have c: "nat ((7 - 0) mod (int 2 * int 2)) = 3" by simp
  have d: "map_option (length \<circ> fst \<circ> snd) (partition_avx512_unrolled_log 2 2 example_array 0 7 5 5 5)
       \<noteq> Some (nat ((7 - 0) mod (int 2 * int 2)))"
    unfolding b c by simp
  show ?thesis by (intro conjI a b c d) simp_all
qed

text \<open>
  C9.  On an empty range \<open>[left, left)\<close> both functions return \<open>left\<close> and leave the
  array and both accumulators unchanged.
\<close>

theorem empty_range:
  "partition_avx512 N arr left left p sm bg = Some (arr, sm, bg, left)
   \<and> partition_avx512_unrolled N K arr left left p sm bg = Some (arr, sm, bg, left)"
  by (simp add: partition_avx512_unrolled_def partition_avx512_def c_rem_def)

text \<open>
  C10.  For registers \<open>a\<close> and \<open>b\<close> of the same width, \<open>COEX\<close> leaves every lane pair
  ordered (\<open>a' ! i \<le> b' ! i\<close>) and conserved (the two new lanes are the two old lanes as
  a multiset), and applying \<open>COEX\<close> to its own result changes nothing.
\<close>

theorem COEX_ordered_conserved_idempotent:
  fixes a b :: "'a::linorder zmm"
  assumes "length a = length b" and "COEX a b = (a', b')"
  shows "(\<forall>i<length a. a' ! i \<le> b' ! i \<and> {#a' ! i, b' ! i#} = {#a ! i, b ! i#})
         \<and> COEX a' b' = (a', b')"
  using assms COEX_lanes[of a b a' b'] COEX_idem[of a b a' b'] by blast

theorem COEX_ordered_conserved_idempotent_witness:
  "length [1, 5, 3 :: int] = length [4, 2, 3 :: int]
   \<and> COEX [1, 5, 3 :: int] [4, 2, 3] = ([1, 2, 3], [4, 5, 3])
   \<and> COEX [1, 2, 3 :: int] [4, 5, 3] = ([1, 2, 3], [4, 5, 3])"
proof -
  have l: "length [1, 5, 3 :: int] = length [4, 2, 3 :: int]" by simp
  have c: "COEX [1, 5, 3 :: int] [4, 2, 3] = ([1, 2, 3], [4, 5, 3])"
    by (simp add: COEX_def vmin_def vmax_def)
  from COEX_ordered_conserved_idempotent[OF l c] l c show ?thesis by simp
qed

end
